theory Spec2Isabelle
  imports Complex_Main
begin

section \<open>JavaScript strings\<close>

text \<open>
  A JavaScript string is a sequence of UTF-16 code units. The model uses \<^typ>\<open>string\<close>:
  a \<^typ>\<open>char\<close> stands for one code unit in the range U+0000 .. U+00FF, so \<^const>\<open>length\<close>
  is \<open>String.prototype.length\<close>. Numbers that the code only uses as integers
  (sequence numbers, line numbers, lengths) are \<^typ>\<open>int\<close> or \<^typ>\<open>nat\<close>.
\<close>

definition startsWith :: "string \<Rightarrow> string \<Rightarrow> bool" where
  "startsWith s p = (take (length p) s = p)"

text \<open>The character classes \<open>\s\<close>, \<open>\d\<close> and \<open>\w\<close> of a regular expression, within
  U+0000 .. U+00FF; \<open>trim\<close> and \<open>trimStart\<close> strip the characters of \<open>\s\<close>.\<close>

definition is_space :: "char \<Rightarrow> bool" where
  "is_space c = (c \<in> set [CHR 0x09, CHR 0x0A, CHR 0x0B, CHR 0x0C, CHR 0x0D, CHR 0x20, CHR 0xA0])"

definition is_digit :: "char \<Rightarrow> bool" where
  "is_digit c = (48 \<le> (of_char c :: nat) \<and> (of_char c :: nat) \<le> 57)"

definition is_word :: "char \<Rightarrow> bool" where
  "is_word c =
     (let n = (of_char c :: nat)
      in (97 \<le> n \<and> n \<le> 122) \<or> (65 \<le> n \<and> n \<le> 90) \<or> (48 \<le> n \<and> n \<le> 57) \<or> n = 95)"

definition trimStart :: "string \<Rightarrow> string" where
  "trimStart s = dropWhile is_space s"

definition trimEnd :: "string \<Rightarrow> string" where
  "trimEnd s = rev (dropWhile is_space (rev s))"

definition trim :: "string \<Rightarrow> string" where
  "trim s = trimEnd (trimStart s)"

text \<open>\<open>s.indexOf(sub)\<close>, with \<open>None\<close> for -1, and \<open>s.includes(sub)\<close>.\<close>

fun indexOf :: "string \<Rightarrow> string \<Rightarrow> nat option" where
  "indexOf s sub =
     (if startsWith s sub then Some 0
      else case s of [] \<Rightarrow> None | c # cs \<Rightarrow> map_option Suc (indexOf cs sub))"

declare indexOf.simps [simp del]

definition str_includes :: "string \<Rightarrow> string \<Rightarrow> bool" where
  "str_includes s sub = (indexOf s sub \<noteq> None)"

text \<open>\<open>parseInt(s, 10)\<close> for a string of decimal digits, which is all the code passes
  (exact here; JavaScript rounds a value above \<open>2^53\<close>).\<close>

definition parseInt :: "string \<Rightarrow> nat" where
  "parseInt s = foldl (\<lambda>n c. 10 * n + (of_char c - 48)) 0 s"

section \<open>Regular expressions\<close>

text \<open>
  The patterns of the code are regular expression literals; the model writes each as a
  term of \<open>re\<close> and runs it with the backtracking semantics of ECMAScript: a
  quantifier is greedy, an alternative is tried left to right, and the first way to
  match wins. A matcher state is whether the position is the start of the input, the
  rest of the input, and the captures so far. \<open>ms r st\<close> lists the states after a
  match of \<open>r\<close> from \<open>st\<close>, in the order the matcher tries them.
\<close>

datatype re =
  Chr "char \<Rightarrow> bool" | Eps | Seq re re | Alt re re | Star re | Grp nat re | Bol | Eol

type_synonym captures = "(nat \<times> string) list"

type_synonym mstate = "bool \<times> string \<times> captures"

text \<open>An iteration of \<open>*\<close> that consumes nothing is not repeated, so the length of the
  rest bounds the number of iterations.\<close>

fun star_iter :: "nat \<Rightarrow> (mstate \<Rightarrow> mstate list) \<Rightarrow> mstate \<Rightarrow> mstate list" where
  "star_iter 0 f st = [st]"
| "star_iter (Suc n) f st =
     concat (map (\<lambda>st'. if length (fst (snd st')) < length (fst (snd st))
                         then star_iter n f st' else [])
                 (f st)) @ [st]"

primrec ms :: "re \<Rightarrow> mstate \<Rightarrow> mstate list" where
  "ms (Chr p) st =
     (case fst (snd st) of
        [] \<Rightarrow> []
      | c # cs \<Rightarrow> if p c then [(False, cs, snd (snd st))] else [])"
| "ms Eps st = [st]"
| "ms (Seq a b) st = concat (map (ms b) (ms a st))"
| "ms (Alt a b) st = ms a st @ ms b st"
| "ms (Star r) st = star_iter (length (fst (snd st))) (ms r) st"
| "ms (Grp n r) st =
     map (\<lambda>st'. (fst st', fst (snd st'),
                  (n, take (length (fst (snd st)) - length (fst (snd st'))) (fst (snd st)))
                  # snd (snd st')))
         (ms r st)"
| "ms Bol st = (if fst st then [st] else [])"
| "ms Eol st = (if fst (snd st) = [] then [st] else [])"

definition OneOrMore :: "re \<Rightarrow> re" where
  "OneOrMore r = Seq r (Star r)"

definition Optional :: "re \<Rightarrow> re" where
  "Optional r = Alt r Eps"

definition lit :: "string \<Rightarrow> re" where
  "lit w = foldr (\<lambda>c r. Seq (Chr (\<lambda>x. x = c)) r) w Eps"

definition seqs :: "re list \<Rightarrow> re" where
  "seqs rs = foldr Seq rs Eps"

text \<open>
  \<open>s.match(r)\<close> for a pattern without the \<open>g\<close> flag: the leftmost start at which the
  pattern matches. The result lists the groups that took part, group 0 being the whole
  match; \<open>None\<close> is \<open>null\<close>. \<open>group m n\<close> is \<open>m[n]\<close>.
\<close>

fun exec_at :: "re \<Rightarrow> bool \<Rightarrow> string \<Rightarrow> captures option" where
  "exec_at r b s =
     (case ms r (b, s, []) of
        st # _ \<Rightarrow> Some ((0, take (length s - length (fst (snd st))) s) # snd (snd st))
      | [] \<Rightarrow> (case s of [] \<Rightarrow> None | c # cs \<Rightarrow> exec_at r False cs))"

declare exec_at.simps [simp del]

definition str_match :: "string \<Rightarrow> re \<Rightarrow> captures option" where
  "str_match s r = exec_at r True s"

definition group :: "captures \<Rightarrow> nat \<Rightarrow> string" where
  "group m n = (case map_of m n of None \<Rightarrow> [] | Some t \<Rightarrow> t)"

section \<open>DAP types (dap-types.ts)\<close>

record Source =
  src_name :: "string option"
  src_path :: "string option"
  sourceReference :: "int option"

text \<open>Interface \<open>Breakpoint\<close>; \<open>id\<close>, \<open>message\<close>, \<open>source\<close>, \<open>line\<close> carry a prefix
  because the plain names are taken.\<close>

record Breakpoint =
  bp_id :: "int option"
  verified :: bool
  bp_message :: "string option"
  bp_source :: "Source option"
  bp_line :: "int option"
  bp_column :: "int option"
  bp_endLine :: "int option"
  bp_endColumn :: "int option"

text \<open>
  A response or event body is \<open>Record<string, unknown>\<close>, cast by each reader to the
  shape it expects. The record holds the members the client reads: \<open>body.breakpoints\<close>
  (setBreakpoints), \<open>body.threadId\<close> (stopped event) and the capability flags of an
  initialize response (\<open>Capabilities\<close> is the body object itself).
\<close>

record Body =
  body_breakpoints :: "Breakpoint list option"
  body_threadId :: "int option"
  body_flags :: "(string \<times> bool) list"

type_synonym Capabilities = Body

record DAPResponse =
  seq :: int
  request_seq :: int
  success :: bool
  command :: string
  body :: "Body option"
  message :: "string option"

record DAPEvent =
  ev_seq :: int
  event :: string
  ev_body :: "Body option"

datatype json = JNull | JBool bool | JNum int | JStr string
  | JArr "json list" | JObj "(string \<times> json) list"

record DAPRequest =
  rq_seq :: int
  rq_command :: string
  arguments :: "(string \<times> json) list"

datatype DAPMessage = Request DAPRequest | Response DAPResponse | Event DAPEvent

section \<open>The DAP client (dap-client.ts)\<close>

text \<open>
  The fields of class \<open>DAPClient\<close>. \<open>socket\<close> is whether \<open>this.socket\<close> is non-null.
  An entry of \<open>pendingRequests\<close> keeps the command; its \<open>resolve\<close> and \<open>reject\<close>
  callbacks settle the promise that \<open>sendRequest\<close> returned for that sequence number,
  which the model reports as a \<open>settlement\<close>. \<open>breakpoints\<close> is a JavaScript \<open>Map\<close>:
  an association list in insertion order.
\<close>

record DAPClient =
  socket :: bool
  connected :: bool
  paused :: bool
  currentThreadId :: int
  sequenceNumber :: int
  pendingRequests :: "int \<rightharpoonup> string"
  buffer :: string
  capabilities :: "Capabilities option"
  breakpoints :: "(string \<times> Breakpoint list) list"

definition new_DAPClient :: DAPClient where
  "new_DAPClient = \<lparr> socket = False, connected = False, paused = False,
     currentThreadId = 1, sequenceNumber = 1, pendingRequests = Map.empty,
     buffer = [], capabilities = None, breakpoints = [] \<rparr>"

text \<open>How the promise of one request ends: \<open>resolve(response)\<close> or \<open>reject(new Error(text))\<close>.\<close>

datatype outcome = Resolved DAPResponse | Rejected string

type_synonym settlement = "int \<times> outcome"

text \<open>\<open>Map.prototype.set\<close>: an existing key keeps its place, a new key goes last.\<close>

fun Map_set :: "'k \<Rightarrow> 'v \<Rightarrow> ('k \<times> 'v) list \<Rightarrow> ('k \<times> 'v) list" where
  "Map_set k v [] = [(k, v)]"
| "Map_set k v ((k', v') # m) = (if k' = k then (k, v) # m else (k', v') # Map_set k v m)"

text \<open>\<open>Map.prototype.get\<close>, used to state what the map holds.\<close>

fun Map_get :: "('k \<times> 'v) list \<Rightarrow> 'k \<Rightarrow> 'v option" where
  "Map_get [] k = None"
| "Map_get ((k', v') # m) k = (if k' = k then Some v' else Map_get m k)"

text \<open>The socket's handlers installed by \<open>connect\<close>.\<close>

definition on_connect :: "DAPClient \<Rightarrow> DAPClient" where
  "on_connect c = c\<lparr> connected := True \<rparr>"

definition on_close :: "DAPClient \<Rightarrow> DAPClient" where
  "on_close c = c\<lparr> connected := False, paused := False, socket := False \<rparr>"

definition on_error :: "DAPClient \<Rightarrow> DAPClient" where
  "on_error c = c\<lparr> connected := False \<rparr>"

definition disconnect :: "DAPClient \<Rightarrow> DAPClient" where
  "disconnect c =
     (if socket c then c\<lparr> socket := False, connected := False, paused := False \<rparr> else c)"

definition isConnected :: "DAPClient \<Rightarrow> bool" where
  "isConnected c = connected c"

definition isPaused :: "DAPClient \<Rightarrow> bool" where
  "isPaused c = paused c"

definition getCurrentThreadId :: "DAPClient \<Rightarrow> int" where
  "getCurrentThreadId c = currentThreadId c"

text \<open>\<open>getBreakpoints\<close>: one entry per stored breakpoint, sources in map order.\<close>

record BreakpointEntry =
  script :: string
  line :: int
  enabled :: bool

definition breakpoint_entry :: "string \<Rightarrow> Breakpoint \<Rightarrow> BreakpointEntry" where
  "breakpoint_entry sourcePath bp =
     \<lparr> script = (if startsWith sourcePath ''res://'' then sourcePath else ''res://'' @ sourcePath),
       line = (case bp_line bp of None \<Rightarrow> 0 | Some l \<Rightarrow> l),
       enabled = verified bp \<rparr>"

definition getBreakpoints :: "DAPClient \<Rightarrow> BreakpointEntry list" where
  "getBreakpoints c =
     concat (map (\<lambda>(sourcePath, bps). map (breakpoint_entry sourcePath) bps) (breakpoints c))"

text \<open>
  \<open>handleEvent\<close>. The \<open>output\<close> and \<open>breakpoint\<close> cases and the default only log.
  \<open>if (body.threadId)\<close> is false for a missing id and for 0.
\<close>

definition handleEvent :: "DAPEvent \<Rightarrow> DAPClient \<Rightarrow> DAPClient" where
  "handleEvent e c =
     (if event e = ''stopped'' then
        (let c1 = c\<lparr> paused := True \<rparr> in
         case ev_body e of
           None \<Rightarrow> c1
         | Some b \<Rightarrow>
             (case body_threadId b of
                None \<Rightarrow> c1
              | Some t \<Rightarrow> if t \<noteq> 0 then c1\<lparr> currentThreadId := t \<rparr> else c1))
      else if event e = ''continued'' then c\<lparr> paused := False \<rparr>
      else if event e = ''terminated'' then c\<lparr> paused := False \<rparr>
      else c)"

text \<open>
  \<open>handleMessage\<close>: a response settles the pending request of its \<open>request_seq\<close>, if
  there is one, and removes it; \<open>response.message || `DAP request failed: ...`\<close> takes the
  default text for a missing or empty message. An event goes to \<open>handleEvent\<close>; any
  other message is ignored.
\<close>

definition rejection_text :: "DAPResponse \<Rightarrow> string" where
  "rejection_text r =
     (case message r of
        None \<Rightarrow> ''DAP request failed: '' @ command r
      | Some m \<Rightarrow> if m = [] then ''DAP request failed: '' @ command r else m)"

definition handleMessage :: "DAPMessage \<Rightarrow> DAPClient \<Rightarrow> DAPClient \<times> settlement list" where
  "handleMessage m c =
     (case m of
        Response r \<Rightarrow>
          (case pendingRequests c (request_seq r) of
             None \<Rightarrow> (c, [])
           | Some pending \<Rightarrow>
               (c\<lparr> pendingRequests := (pendingRequests c)(request_seq r := None) \<rparr>,
                [(request_seq r,
                  if success r then Resolved r else Rejected (rejection_text r))]))
      | Event e \<Rightarrow> (handleEvent e c, [])
      | Request q \<Rightarrow> (c, []))"

text \<open>The timer that \<open>sendRequest\<close> starts for the request numbered \<open>sq\<close>, when it fires.\<close>

definition request_timeout :: "int \<Rightarrow> string \<Rightarrow> DAPClient \<Rightarrow> DAPClient \<times> settlement list" where
  "request_timeout sq cmd c =
     (if pendingRequests c sq \<noteq> None then
        (c\<lparr> pendingRequests := (pendingRequests c)(sq := None) \<rparr>,
         [(sq, Rejected (''DAP request timeout: '' @ cmd))])
      else (c, []))"

subsection \<open>Sending a request\<close>

text \<open>Decimal text of a number, as a template literal or \<open>JSON.stringify\<close> prints an integer.\<close>

definition digit_char :: "nat \<Rightarrow> char" where
  "digit_char d = char_of (48 + d)"

fun show_nat :: "nat \<Rightarrow> string" where
  "show_nat n = (if n < 10 then [digit_char n] else show_nat (n div 10) @ [digit_char (n mod 10)])"

declare show_nat.simps [simp del]

definition show_int :: "int \<Rightarrow> string" where
  "show_int i = (if i < 0 then CHR ''-'' # show_nat (nat (- i)) else show_nat (nat i))"

text \<open>
  \<open>JSON.stringify\<close> is the platform's, not the repository's; this is its behaviour on
  values built from null, booleans, integers, strings, arrays and objects: members in
  order, no white space, and in a string only the double quote, the backslash and the
  control characters below U+0020 escaped. A character above U+007F is written as it is.
\<close>

definition hex_char :: "nat \<Rightarrow> char" where
  "hex_char d = (if d < 10 then char_of (48 + d) else char_of (87 + d))"

definition escape_char :: "char \<Rightarrow> string" where
  "escape_char c =
     (if c = CHR 0x22 then [CHR 0x5C, CHR 0x22]
      else if c = CHR 0x5C then [CHR 0x5C, CHR 0x5C]
      else if c = CHR 0x08 then [CHR 0x5C, CHR ''b'']
      else if c = CHR 0x0C then [CHR 0x5C, CHR ''f'']
      else if c = CHR 0x0A then [CHR 0x5C, CHR ''n'']
      else if c = CHR 0x0D then [CHR 0x5C, CHR ''r'']
      else if c = CHR 0x09 then [CHR 0x5C, CHR ''t'']
      else if (of_char c :: nat) < 32 then
        [CHR 0x5C, CHR ''u'', CHR ''0'', CHR ''0'',
         hex_char (of_char c div 16), hex_char (of_char c mod 16)]
      else [c])"

definition quote :: "string \<Rightarrow> string" where
  "quote s = CHR 0x22 # concat (map escape_char s) @ [CHR 0x22]"

fun join :: "string \<Rightarrow> string list \<Rightarrow> string" where
  "join sep [] = []"
| "join sep [x] = x"
| "join sep (x # y # ys) = x @ sep @ join sep (y # ys)"

fun stringify :: "json \<Rightarrow> string" where
  "stringify JNull = ''null''"
| "stringify (JBool b) = (if b then ''true'' else ''false'')"
| "stringify (JNum i) = show_int i"
| "stringify (JStr s) = quote s"
| "stringify (JArr xs) = ''['' @ join '','' (map stringify xs) @ '']''"
| "stringify (JObj kvs) =
     ''{'' @ join '','' (map (\<lambda>kv. quote (fst kv) @ '':'' @ stringify (snd kv)) kvs) @ ''}''"

definition request_json :: "DAPRequest \<Rightarrow> json" where
  "request_json q =
     JObj [(''seq'', JNum (rq_seq q)), (''type'', JStr ''request''),
           (''command'', JStr (rq_command q)), (''arguments'', JObj (arguments q))]"

text \<open>\<open>Buffer.byteLength\<close>: the length of the UTF-8 encoding, one byte for a character
  up to U+007F and two for one from U+0080 to U+00FF.\<close>

definition byteLength :: "string \<Rightarrow> nat" where
  "byteLength s = sum_list (map (\<lambda>c. if (of_char c :: nat) < 128 then 1 else 2) s)"

definition CRLF2 :: string where
  "CRLF2 = [CHR 0x0D, CHR 0x0A, CHR 0x0D, CHR 0x0A]"

definition frame :: "string \<Rightarrow> string" where
  "frame msg = ''Content-Length: '' @ show_nat (byteLength msg) @ CRLF2 @ msg"

text \<open>
  \<open>sendRequest\<close>. \<open>Inl\<close>: the promise is rejected at once, nothing is sent. \<open>Inr\<close>: the
  sequence number under which the promise is pending, and the text written to the socket.
\<close>

definition sendRequest ::
  "string \<Rightarrow> (string \<times> json) list \<Rightarrow> DAPClient \<Rightarrow> DAPClient \<times> (string + int \<times> string)" where
  "sendRequest cmd args c =
     (if \<not> socket c \<or> \<not> connected c then (c, Inl ''Not connected to DAP server'')
      else
        (let sq = sequenceNumber c;
             request = \<lparr> rq_seq = sq, rq_command = cmd, arguments = args \<rparr>;
             msg = stringify (request_json request)
         in (c\<lparr> sequenceNumber := sq + 1,
                pendingRequests := (pendingRequests c)(sq \<mapsto> cmd) \<rparr>,
             Inr (sq, frame msg))))"

subsection \<open>setBreakpoints\<close>

text \<open>
  \<open>setBreakpoints\<close> is an async function: it sends one request, and the rest of its body
  runs when the promise of \<open>sendRequest\<close> is settled. \<open>setBreakpoints_resume\<close> is that
  rest: a rejection is thrown on to the caller (\<open>Inl\<close>), a resolved response with a body
  replaces the entry of \<open>sourcePath\<close>.
\<close>

definition setBreakpoints_args :: "string \<Rightarrow> int list \<Rightarrow> (string \<times> json) list" where
  "setBreakpoints_args sourcePath lines =
     [(''source'', JObj [(''path'', JStr sourcePath)]),
      (''breakpoints'', JArr (map (\<lambda>l. JObj [(''line'', JNum l)]) lines))]"

definition setBreakpoints_send ::
  "string \<Rightarrow> int list \<Rightarrow> DAPClient \<Rightarrow> DAPClient \<times> (string + int \<times> string)" where
  "setBreakpoints_send sourcePath lines c =
     sendRequest ''setBreakpoints'' (setBreakpoints_args sourcePath lines) c"

definition setBreakpoints_resume ::
  "string \<Rightarrow> outcome \<Rightarrow> DAPClient \<Rightarrow> DAPClient \<times> (string + Breakpoint list)" where
  "setBreakpoints_resume sourcePath out c =
     (case out of
        Rejected err \<Rightarrow> (c, Inl err)
      | Resolved response \<Rightarrow>
          if success response then
            (case body response of
               None \<Rightarrow> (c, Inr [])
             | Some b \<Rightarrow>
                 (let bps = (case body_breakpoints b of None \<Rightarrow> [] | Some l \<Rightarrow> l)
                  in (c\<lparr> breakpoints := Map_set sourcePath bps (breakpoints c) \<rparr>, Inr bps)))
          else (c, Inr []))"

text \<open>
  One whole call of \<open>setBreakpoints\<close> in which the next thing that happens after the
  request is sent is \<open>happens\<close>: a message from the server, or the request's timer.
  \<open>None\<close>: the call is still waiting afterwards.
\<close>

datatype happening = Arrives DAPMessage | TimerFires

definition setBreakpoints_call ::
  "string \<Rightarrow> int list \<Rightarrow> (int \<Rightarrow> happening) \<Rightarrow> DAPClient
     \<Rightarrow> DAPClient \<times> (string + Breakpoint list) option" where
  "setBreakpoints_call sourcePath lines happens c =
     (case setBreakpoints_send sourcePath lines c of
        (c1, Inl err) \<Rightarrow> (c1, Some (Inl err))
      | (c1, Inr (sq, written)) \<Rightarrow>
          (let (c2, settled) =
                 (case happens sq of
                    Arrives m \<Rightarrow> handleMessage m c1
                  | TimerFires \<Rightarrow> request_timeout sq ''setBreakpoints'' c1)
           in case map_of settled sq of
                None \<Rightarrow> (c2, None)
              | Some out \<Rightarrow>
                  (let (c3, res) = setBreakpoints_resume sourcePath out c2 in (c3, Some res))))"

subsection \<open>Receiving data\<close>

text \<open>
  The pattern \<^verbatim>\<open>/Content-Length:\s*(\d+)/i\<close> of \<open>handleData\<close>. Under the \<open>i\<close> flag two
  characters match when their upper-case forms are equal, which for the letters of the
  pattern means the ASCII letter in either case.
\<close>

definition ascii_upper :: "char \<Rightarrow> char" where
  "ascii_upper c =
     (if 97 \<le> (of_char c :: nat) \<and> (of_char c :: nat) \<le> 122
      then char_of ((of_char c :: nat) - 32) else c)"

definition lit_ci :: "string \<Rightarrow> re" where
  "lit_ci w = foldr (\<lambda>c r. Seq (Chr (\<lambda>x. ascii_upper x = ascii_upper c)) r) w Eps"

definition contentLengthPattern :: re where
  "contentLengthPattern =
     seqs [lit_ci ''Content-Length:'', Star (Chr is_space), Grp 1 (OneOrMore (Chr is_digit))]"

lemma handleMessage_buffer: "buffer (fst (handleMessage m c)) = buffer c"
  by (simp add: handleMessage_def handleEvent_def Let_def split: DAPMessage.splits option.splits)

lemma indexOf_bound: "indexOf s sub = Some i \<Longrightarrow> i + length sub \<le> length s"
proof (induction s arbitrary: i)
  case Nil
  then show ?case
    by (subst (asm) indexOf.simps) (auto simp: startsWith_def split: if_splits)
next
  case (Cons c cs)
  show ?case
  proof (cases "startsWith (c # cs) sub")
    case True
    with Cons.prems have "i = 0" by (subst (asm) indexOf.simps) simp
    moreover from True have "length (take (length sub) (c # cs)) = length sub"
      by (simp only: startsWith_def)
    then have "length sub \<le> length (c # cs)" by simp
    ultimately show ?thesis by simp
  next
    case False
    with Cons.prems obtain j where j: "indexOf cs sub = Some j" "i = Suc j"
      by (subst (asm) indexOf.simps) auto
    from Cons.IH [OF j(1)] j(2) show ?thesis by simp
  qed
qed

text \<open>
  The loop of \<open>handleData\<close>, on the client whose buffer already holds the new data.
  \<open>parse\<close> is \<open>JSON.parse\<close> followed by the cast to a message, with \<open>None\<close> when it
  throws. The result is the client, the messages handed to \<open>handleMessage\<close> and the
  settlements they caused.
\<close>

function handle_frames ::
  "(string \<Rightarrow> DAPMessage option) \<Rightarrow> DAPClient
     \<Rightarrow> DAPClient \<times> DAPMessage list \<times> settlement list" where
  "handle_frames parse c =
     (case indexOf (buffer c) CRLF2 of
        None \<Rightarrow> (c, [], [])
      | Some headerEnd \<Rightarrow>
          (case str_match (take headerEnd (buffer c)) contentLengthPattern of
             None \<Rightarrow> handle_frames parse (c\<lparr> buffer := drop (headerEnd + 4) (buffer c) \<rparr>)
           | Some contentLengthMatch \<Rightarrow>
               (let contentLength = parseInt (group contentLengthMatch 1);
                    messageStart = headerEnd + 4;
                    messageEnd = messageStart + contentLength
                in if length (buffer c) < messageEnd then (c, [], [])
                   else
                     (let messageStr = take contentLength (drop messageStart (buffer c));
                          c1 = c\<lparr> buffer := drop messageEnd (buffer c) \<rparr>
                      in case parse messageStr of
                           None \<Rightarrow> handle_frames parse c1
                         | Some msg \<Rightarrow>
                             (let c2 = fst (handleMessage msg c1);
                                  settled = snd (handleMessage msg c1);
                                  (c3, msgs, more) = handle_frames parse c2
                              in (c3, msg # msgs, settled @ more))))))"
  by pat_completeness auto
termination
proof (relation "measure (\<lambda>(parse, c). length (buffer c))")
  show "wf (measure (\<lambda>(parse, c). length (buffer c)))" by simp
next
  fix parse :: "string \<Rightarrow> DAPMessage option" and c :: DAPClient and headerEnd
  assume "indexOf (buffer c) CRLF2 = Some headerEnd"
  from indexOf_bound [OF this] have "headerEnd + 4 \<le> length (buffer c)"
    by (simp add: CRLF2_def)
  then show "((parse, c\<lparr> buffer := drop (headerEnd + 4) (buffer c) \<rparr>), (parse, c))
      \<in> measure (\<lambda>(parse, c). length (buffer c))"
    by simp
next
  fix parse :: "string \<Rightarrow> DAPMessage option" and c :: DAPClient
    and headerEnd messageStart messageEnd and contentLength :: nat and c1
  assume "messageStart = headerEnd + 4" and "messageEnd = messageStart + contentLength"
    and "\<not> length (buffer c) < messageEnd"
    and "c1 = c\<lparr> buffer := drop messageEnd (buffer c) \<rparr>"
  then show "((parse, c1), (parse, c)) \<in> measure (\<lambda>(parse, c). length (buffer c))"
    by simp
next
  fix parse :: "string \<Rightarrow> DAPMessage option" and c :: DAPClient
    and headerEnd messageStart messageEnd and contentLength :: nat and c1 msg c2
  assume "messageStart = headerEnd + 4" and "messageEnd = messageStart + contentLength"
    and "\<not> length (buffer c) < messageEnd"
    and "c1 = c\<lparr> buffer := drop messageEnd (buffer c) \<rparr>"
    and "c2 = fst (handleMessage msg c1)"
  then show "((parse, c2), (parse, c)) \<in> measure (\<lambda>(parse, c). length (buffer c))"
    by (simp add: handleMessage_buffer)
qed

declare handle_frames.simps [simp del]

text \<open>\<open>handleData\<close>; \<open>chunk\<close> is \<open>data.toString()\<close>, the text of the bytes received.\<close>

definition handleData ::
  "(string \<Rightarrow> DAPMessage option) \<Rightarrow> string \<Rightarrow> DAPClient
     \<Rightarrow> DAPClient \<times> DAPMessage list \<times> settlement list" where
  "handleData parse chunk c = handle_frames parse (c\<lparr> buffer := buffer c @ chunk \<rparr>)"

text \<open>The arguments that \<open>evaluate\<close> passes to \<open>sendRequest\<close>.\<close>

definition evaluate_args :: "string \<Rightarrow> int \<Rightarrow> (string \<times> json) list" where
  "evaluate_args expression frameId =
     [(''expression'', JStr expression), (''frameId'', JNum frameId),
      (''context'', JStr ''hover'')]"

subsection \<open>Runs of the client\<close>

text \<open>
  What can happen to a client, in any order: a caller sends a request, a message
  arrives, the timer of a request fires. A run collects the settlements in order.
\<close>

datatype client_event =
  Call string "(string \<times> json) list" | Incoming DAPMessage | Timer int string

fun client_step :: "client_event \<Rightarrow> DAPClient \<Rightarrow> DAPClient \<times> settlement list" where
  "client_step (Call cmd args) c = (fst (sendRequest cmd args c), [])"
| "client_step (Incoming m) c = handleMessage m c"
| "client_step (Timer sq cmd) c = request_timeout sq cmd c"

fun client_run :: "client_event list \<Rightarrow> DAPClient \<Rightarrow> DAPClient \<times> settlement list" where
  "client_run [] c = (c, [])"
| "client_run (e # es) c =
     (let (c1, s1) = client_step e c; (c2, s2) = client_run es c1 in (c2, s1 @ s2))"

section \<open>Runtime telemetry of the server\<close>

text \<open>The \<open>type\<close> of a runtime error and the \<open>category\<close> of a debug message are unions
  of string literals.\<close>

datatype ErrorType = TypeError | TypeWarning

datatype Category = CatPrint | CatWarning | CatError

record RuntimeError =
  err_timestamp :: real
  err_type :: ErrorType
  err_message :: string
  err_script :: string
  err_line :: nat
  err_function :: "string option"

record RuntimeErrorBuffer =
  errors :: "RuntimeError list"
  maxSize :: nat

record DebugMessage =
  dm_timestamp :: real
  category :: Category
  dm_message :: string
  dm_source :: string

definition MAX_RUNTIME_ERRORS :: nat where
  "MAX_RUNTIME_ERRORS = 100"

definition MAX_DEBUG_MESSAGES :: nat where
  "MAX_DEBUG_MESSAGES = 500"

text \<open>\<open>ERROR_PATTERNS\<close>:
  \<^verbatim>\<open>errorStart: /^(ERROR|SCRIPT ERROR|WARNING):\s*(.+)$/\<close>,
  \<^verbatim>\<open>atLine: /^\s*at:\s*(\w+)\s*\((?:res:\/\/)?([^:]+):(\d+)\)$/\<close>,
  \<^verbatim>\<open>atLineAlt: /^\s*at:\s*([^\(]+)\s*\(([^:]+):(\d+)\)$/\<close>.\<close>

definition errorStart :: re where
  "errorStart = seqs
     [Bol, Grp 1 (Alt (lit ''ERROR'') (Alt (lit ''SCRIPT ERROR'') (lit ''WARNING''))),
      lit '':'', Star (Chr is_space),
      Grp 2 (OneOrMore (Chr (\<lambda>c. c \<noteq> CHR 0x0A \<and> c \<noteq> CHR 0x0D))), Eol]"

definition atLine :: re where
  "atLine = seqs
     [Bol, Star (Chr is_space), lit ''at:'', Star (Chr is_space),
      Grp 1 (OneOrMore (Chr is_word)), Star (Chr is_space), lit ''('',
      Optional (lit ''res://''), Grp 2 (OneOrMore (Chr (\<lambda>c. c \<noteq> CHR '':''))),
      lit '':'', Grp 3 (OneOrMore (Chr is_digit)), lit '')'', Eol]"

definition atLineAlt :: re where
  "atLineAlt = seqs
     [Bol, Star (Chr is_space), lit ''at:'', Star (Chr is_space),
      Grp 1 (OneOrMore (Chr (\<lambda>c. c \<noteq> CHR ''(''))), Star (Chr is_space), lit ''('',
      Grp 2 (OneOrMore (Chr (\<lambda>c. c \<noteq> CHR '':''))),
      lit '':'', Grp 3 (OneOrMore (Chr is_digit)), lit '')'', Eol]"

text \<open>The insertion into the runtime-error buffer, written out twice in
  \<open>parseAndStoreError\<close>: drop the oldest entry when the buffer is full, then append.
  \<open>shift\<close> on an empty array does nothing.\<close>

definition push_error :: "RuntimeErrorBuffer \<Rightarrow> RuntimeError \<Rightarrow> RuntimeErrorBuffer" where
  "push_error buf e =
     (let kept = (if length (errors buf) \<ge> maxSize buf then tl (errors buf) else errors buf)
      in buf\<lparr> errors := kept @ [e] \<rparr>)"

text \<open>The insertion into the debug-message buffer, written out in the stdout and in
  the stderr handler of \<open>handleRunProject\<close>: append, then drop the oldest entry when
  the buffer is over its limit.\<close>

definition push_debug :: "DebugMessage list \<Rightarrow> DebugMessage \<Rightarrow> DebugMessage list" where
  "push_debug msgs m =
     (let appended = msgs @ [m]
      in if length appended > MAX_DEBUG_MESSAGES then tl appended else appended)"

text \<open>
  \<open>parseAndStoreError\<close> of the line \<open>raw\<close>; \<open>now\<close> is \<open>Date.now() / 1000\<close> at the call. The
  result is the buffer after the call and the new pending line. A pending line that is
  the empty string counts as none (\<open>if (pendingLine)\<close>).
\<close>

definition error_type_of :: "string \<Rightarrow> ErrorType" where
  "error_type_of g = (if str_includes g ''WARNING'' then TypeWarning else TypeError)"

definition located_error :: "real \<Rightarrow> captures \<Rightarrow> captures \<Rightarrow> RuntimeError" where
  "located_error now errorStartMatch atMatch =
     \<lparr> err_timestamp = now,
       err_type = error_type_of (group errorStartMatch 1),
       err_message = group errorStartMatch 2,
       err_script = (if startsWith (group atMatch 2) ''res://'' then group atMatch 2
                     else ''res://'' @ group atMatch 2),
       err_line = parseInt (group atMatch 3),
       err_function = Some (trim (group atMatch 1)) \<rparr>"

definition unlocated_error :: "real \<Rightarrow> captures \<Rightarrow> RuntimeError" where
  "unlocated_error now errorStartMatch =
     \<lparr> err_timestamp = now,
       err_type = error_type_of (group errorStartMatch 1),
       err_message = group errorStartMatch 2,
       err_script = [], err_line = 0, err_function = None \<rparr>"

definition parseAndStoreError ::
  "real \<Rightarrow> string \<Rightarrow> RuntimeErrorBuffer \<Rightarrow> string option
     \<Rightarrow> RuntimeErrorBuffer \<times> string option" where
  "parseAndStoreError now raw buf pendingLine =
     (let trimmedLine = trim raw;
          start_check = (\<lambda>b. if str_match trimmedLine errorStart \<noteq> None
                              then (b, Some trimmedLine) else (b, None))
      in
      if trimmedLine = [] then (buf, pendingLine)
      else
        (case pendingLine of
           None \<Rightarrow> start_check buf
         | Some pl \<Rightarrow>
             if pl = [] then start_check buf
             else
               (let atMatch = (case str_match trimmedLine atLine of
                                 Some m \<Rightarrow> Some m
                               | None \<Rightarrow> str_match trimmedLine atLineAlt)
                in case (atMatch, str_match pl errorStart) of
                     (Some am, Some em) \<Rightarrow> (push_error buf (located_error now em am), None)
                   | (None, Some em) \<Rightarrow> start_check (push_error buf (unlocated_error now em))
                   | (_, None) \<Rightarrow> start_check buf)))"

text \<open>What the stderr handler of \<open>handleRunProject\<close> does to the runtime errors: every
  line that is not blank goes to \<open>parseAndStoreError\<close>, with the pending line of the
  call before.\<close>

definition feed_stderr_line ::
  "real \<times> string \<Rightarrow> RuntimeErrorBuffer \<times> string option \<Rightarrow> RuntimeErrorBuffer \<times> string option" where
  "feed_stderr_line timed st =
     (if trim (snd timed) \<noteq> [] then parseAndStoreError (fst timed) (snd timed) (fst st) (snd st)
      else st)"

definition new_error_buffer :: RuntimeErrorBuffer where
  "new_error_buffer = \<lparr> errors = [], maxSize = MAX_RUNTIME_ERRORS \<rparr>"

text \<open>
  \<open>parseStderrLine\<close>, with its patterns
  \<^verbatim>\<open>/(res:\/\/[^:\s]+):(\d+)/\<close>, \<^verbatim>\<open>/^WARNING:\s*/i\<close>, \<^verbatim>\<open>/^(SCRIPT )?ERROR:\s*/i\<close> and
  \<^verbatim>\<open>/^(res:\/\/[^:]+):(\d+)\s*[-:]\s*(.+)$/\<close>. \<open>s.replace(r, '')\<close> removes the first
  match of \<open>r\<close>. \<open>toUpperCase\<close> is only used to look for the words WARNING and ERROR,
  so it is modelled on the ASCII letters.
\<close>

definition sourcePattern :: re where
  "sourcePattern = seqs
     [Grp 1 (seqs [lit ''res://'', OneOrMore (Chr (\<lambda>c. c \<noteq> CHR '':'' \<and> \<not> is_space c))]),
      lit '':'', Grp 2 (OneOrMore (Chr is_digit))]"

definition warningPrefix :: re where
  "warningPrefix = seqs [Bol, lit_ci ''WARNING:'', Star (Chr is_space)]"

definition errorPrefix :: re where
  "errorPrefix = seqs
     [Bol, Grp 1 (Optional (lit_ci ''SCRIPT '')), lit_ci ''ERROR:'', Star (Chr is_space)]"

definition scriptPattern :: re where
  "scriptPattern = seqs
     [Bol, Grp 1 (seqs [lit ''res://'', OneOrMore (Chr (\<lambda>c. c \<noteq> CHR '':''))]),
      lit '':'', Grp 2 (OneOrMore (Chr is_digit)), Star (Chr is_space),
      Chr (\<lambda>c. c = CHR ''-'' \<or> c = CHR '':''), Star (Chr is_space),
      Grp 3 (OneOrMore (Chr (\<lambda>c. c \<noteq> CHR 0x0A \<and> c \<noteq> CHR 0x0D))), Eol]"

fun remove_at :: "re \<Rightarrow> bool \<Rightarrow> string \<Rightarrow> string" where
  "remove_at r b s =
     (case ms r (b, s, []) of
        st # _ \<Rightarrow> fst (snd st)
      | [] \<Rightarrow> (case s of [] \<Rightarrow> [] | c # cs \<Rightarrow> c # remove_at r False cs))"

declare remove_at.simps [simp del]

definition str_remove :: "string \<Rightarrow> re \<Rightarrow> string" where
  "str_remove s r = remove_at r True s"

definition toUpperCase :: "string \<Rightarrow> string" where
  "toUpperCase s = map ascii_upper s"

definition source_of :: "string \<Rightarrow> string" where
  "source_of trimmedLine =
     (case str_match trimmedLine sourcePattern of
        None \<Rightarrow> ''stderr''
      | Some sourceMatch \<Rightarrow> group sourceMatch 1 @ '':'' @ group sourceMatch 2)"

definition parseStderrLine :: "real \<Rightarrow> string \<Rightarrow> DebugMessage" where
  "parseStderrLine now raw =
     (let trimmedLine = trim raw in
      if str_includes trimmedLine ''WARNING:'' \<or>
         str_includes (toUpperCase trimmedLine) ''WARNING''
      then \<lparr> dm_timestamp = now, category = CatWarning,
             dm_message = trim (str_remove trimmedLine warningPrefix),
             dm_source = source_of trimmedLine \<rparr>
      else if str_includes trimmedLine ''ERROR:'' \<or> str_includes trimmedLine ''SCRIPT ERROR:'' \<or>
              str_includes (toUpperCase trimmedLine) ''ERROR''
      then \<lparr> dm_timestamp = now, category = CatError,
             dm_message = trim (str_remove trimmedLine errorPrefix),
             dm_source = source_of trimmedLine \<rparr>
      else
        (case str_match trimmedLine scriptPattern of
           Some scriptMatch \<Rightarrow>
             \<lparr> dm_timestamp = now,
               category = (if str_includes (toUpperCase (group scriptMatch 3)) ''WARNING''
                           then CatWarning else CatError),
               dm_message = group scriptMatch 3,
               dm_source = group scriptMatch 1 @ '':'' @ group scriptMatch 2 \<rparr>
         | None \<Rightarrow>
             \<lparr> dm_timestamp = now, category = CatError, dm_message = trimmedLine,
               dm_source = ''stderr'' \<rparr>))"

text \<open>
  The buffers of a running process, and what the stdout and the stderr handler of
  \<open>handleRunProject\<close> do with one line of output. \<open>now\<close> is \<open>Date.now() / 1000\<close> when the
  line is handled.
\<close>

record process_buffers =
  runtimeErrors :: RuntimeErrorBuffer
  pendingErrorLine :: "string option"
  debugMessages :: "DebugMessage list"

definition new_process_buffers :: process_buffers where
  "new_process_buffers =
     \<lparr> runtimeErrors = new_error_buffer, pendingErrorLine = None, debugMessages = [] \<rparr>"

definition on_stdout_line :: "real \<Rightarrow> string \<Rightarrow> process_buffers \<Rightarrow> process_buffers" where
  "on_stdout_line now raw p =
     (let trimmedLine = trim raw in
      if trimmedLine \<noteq> [] then
        p\<lparr> debugMessages := push_debug (debugMessages p)
             \<lparr> dm_timestamp = now, category = CatPrint, dm_message = trimmedLine,
               dm_source = ''stdout'' \<rparr> \<rparr>
      else p)"

definition on_stderr_line :: "real \<Rightarrow> string \<Rightarrow> process_buffers \<Rightarrow> process_buffers" where
  "on_stderr_line now raw p =
     (if trim raw \<noteq> [] then
        (let stored = parseAndStoreError now raw (runtimeErrors p) (pendingErrorLine p)
         in \<lparr> runtimeErrors = fst stored, pendingErrorLine = snd stored,
              debugMessages = push_debug (debugMessages p) (parseStderrLine now raw) \<rparr>)
      else p)"

text \<open>
  The two handlers run once for every line of every chunk of output, in the order in
  which the output arrives. \<open>output_line\<close> is one such line, from stdout or from
  stderr, with the time at which its handler takes it.
\<close>

datatype output_line = Stdout real string | Stderr real string

definition on_output_line :: "output_line \<Rightarrow> process_buffers \<Rightarrow> process_buffers" where
  "on_output_line ev p =
     (case ev of
        Stdout now raw \<Rightarrow> on_stdout_line now raw p
      | Stderr now raw \<Rightarrow> on_stderr_line now raw p)"

section \<open>The GDScript parser (gdscript-parser.ts)\<close>

datatype Scope = ScopeClass | ScopeLocal | ScopeParameter

record VariableInfo =
  var_name :: string
  var_type :: "string option"
  var_line :: int
  var_scope :: Scope

record FunctionInfo =
  fn_name :: string
  startLine :: int
  endLine :: int
  parameters :: "string list"
  localVariables :: "VariableInfo list"

text \<open>Interface \<open>ScriptInfo\<close>; its member \<open>functions\<close> is \<open>script_functions\<close> here.\<close>

record ScriptInfo =
  classVariables :: "VariableInfo list"
  script_functions :: "FunctionInfo list"

text \<open>\<open>s.split(sep)\<close> for a separator of one character: the empty string gives one
  empty part.\<close>

fun split_on :: "char \<Rightarrow> string \<Rightarrow> string list" where
  "split_on sep [] = [[]]"
| "split_on sep (c # cs) =
     (if c = sep then [] # split_on sep cs
      else (case split_on sep cs of [] \<Rightarrow> [[c]] | part # parts \<Rightarrow> (c # part) # parts))"

text \<open>The patterns of \<open>parseGDScriptContent\<close>:
  \<^verbatim>\<open>classVarPattern = /^(var|const|@onready\s+var|@export\s+var)\s+(\w+)/\<close>,
  \<^verbatim>\<open>localVarPattern = /^\s+(var|const)\s+(\w+)/\<close>,
  \<^verbatim>\<open>funcPattern = /^func\s+(\w+)\s*\(([^)]*)\)/\<close>,
  \<^verbatim>\<open>forPattern = /^\s+for\s+(\w+)\s+in/\<close>,
  \<^verbatim>\<open>assignPattern = /^\s+(\w+)\s*:?=\s*/\<close>,
  the pattern \<^verbatim>\<open>/^\s*$/\<close> of the exit check, the pattern \<^verbatim>\<open>/^(\w+)/\<close> of
  \<open>parseParameters\<close>, and \<^verbatim>\<open>new RegExp(`${varName}\\s*:\\s*(\\w+)`)\<close>, where
  \<open>varName\<close> is made of word characters.\<close>

definition classVarPattern :: re where
  "classVarPattern = seqs
     [Bol,
      Grp 1 (Alt (lit ''var'') (Alt (lit ''const'')
        (Alt (seqs [lit ''@onready'', OneOrMore (Chr is_space), lit ''var''])
             (seqs [lit ''@export'', OneOrMore (Chr is_space), lit ''var''])))),
      OneOrMore (Chr is_space), Grp 2 (OneOrMore (Chr is_word))]"

definition localVarPattern :: re where
  "localVarPattern = seqs
     [Bol, OneOrMore (Chr is_space), Grp 1 (Alt (lit ''var'') (lit ''const'')),
      OneOrMore (Chr is_space), Grp 2 (OneOrMore (Chr is_word))]"

definition funcPattern :: re where
  "funcPattern = seqs
     [Bol, lit ''func'', OneOrMore (Chr is_space), Grp 1 (OneOrMore (Chr is_word)),
      Star (Chr is_space), lit ''('', Grp 2 (Star (Chr (\<lambda>c. c \<noteq> CHR '')''))), lit '')'']"

definition forPattern :: re where
  "forPattern = seqs
     [Bol, OneOrMore (Chr is_space), lit ''for'', OneOrMore (Chr is_space),
      Grp 1 (OneOrMore (Chr is_word)), OneOrMore (Chr is_space), lit ''in'']"

definition assignPattern :: re where
  "assignPattern = seqs
     [Bol, OneOrMore (Chr is_space), Grp 1 (OneOrMore (Chr is_word)), Star (Chr is_space),
      Optional (lit '':''), lit ''='', Star (Chr is_space)]"

definition blankPattern :: re where
  "blankPattern = seqs [Bol, Star (Chr is_space), Eol]"

definition identPattern :: re where
  "identPattern = seqs [Bol, Grp 1 (OneOrMore (Chr is_word))]"

definition typePattern :: "string \<Rightarrow> re" where
  "typePattern varName = seqs
     [lit varName, Star (Chr is_space), lit '':'', Star (Chr is_space),
      Grp 1 (OneOrMore (Chr is_word))]"

definition parseParameters :: "string \<Rightarrow> string list" where
  "parseParameters paramsStr =
     (if trim paramsStr = [] then []
      else concat (map (\<lambda>part. case str_match (trim part) identPattern of
                                   None \<Rightarrow> []
                                 | Some m \<Rightarrow> [group m 1])
                       (split_on CHR '','' paramsStr)))"

text \<open>
  The variables of the loop of \<open>parseGDScriptContent\<close>: the two result arrays, the
  function being read, and the indentation of its \<open>func\<close> line. (\<open>indentLevel\<close> is
  never used.)
\<close>

record parser_state =
  ps_classVariables :: "VariableInfo list"
  ps_functions :: "FunctionInfo list"
  currentFunction :: "FunctionInfo option"
  functionIndent :: nat

definition add_local :: "VariableInfo \<Rightarrow> parser_state \<Rightarrow> parser_state" where
  "add_local v st =
     (case currentFunction st of
        None \<Rightarrow> st
      | Some f \<Rightarrow> st\<lparr> currentFunction := Some (f\<lparr> localVariables := localVariables f @ [v] \<rparr>) \<rparr>)"

definition type_annotation :: "string \<Rightarrow> string \<Rightarrow> string option" where
  "type_annotation raw varName =
     (case str_match raw (typePattern varName) of None \<Rightarrow> None | Some m \<Rightarrow> Some (group m 1))"

text \<open>The exit check at the top of the loop body, for the line with index \<open>i\<close>.\<close>

definition exit_function :: "nat \<Rightarrow> string \<Rightarrow> parser_state \<Rightarrow> parser_state" where
  "exit_function i raw st =
     (let trimmedLine = trimStart raw;
          currentIndent = length raw - length trimmedLine
      in case currentFunction st of
           None \<Rightarrow> st
         | Some f \<Rightarrow>
             if trimmedLine \<noteq> [] \<and> \<not> startsWith trimmedLine ''#'' \<and>
                currentIndent \<le> functionIndent st \<and> str_match raw blankPattern = None
             then st\<lparr> ps_functions := ps_functions st @ [f\<lparr> endLine := int i \<rparr>],
                     currentFunction := None \<rparr>
             else st)"

text \<open>A line that matches \<open>funcPattern\<close> with match \<open>funcMatch\<close>.\<close>

definition start_function :: "nat \<Rightarrow> string \<Rightarrow> captures \<Rightarrow> parser_state \<Rightarrow> parser_state" where
  "start_function i raw funcMatch st =
     (let lineNum = int i + 1;
          currentIndent = length raw - length (trimStart raw);
          st1 = (case currentFunction st of
                   None \<Rightarrow> st
                 | Some f \<Rightarrow> st\<lparr> ps_functions := ps_functions st @ [f\<lparr> endLine := int i \<rparr>] \<rparr>);
          params = parseParameters (group funcMatch 2)
      in st1\<lparr> currentFunction := Some
                \<lparr> fn_name = group funcMatch 1, startLine = lineNum, endLine = lineNum,
                  parameters = params,
                  localVariables =
                    map (\<lambda>param. \<lparr> var_name = param, var_type = None, var_line = lineNum,
                                    var_scope = ScopeParameter \<rparr>) params \<rparr>,
              functionIndent := currentIndent \<rparr>)"

text \<open>The checks for local variables, for a line inside a function that is neither a
  \<open>func\<close> line nor a class variable.\<close>

definition local_statement :: "nat \<Rightarrow> string \<Rightarrow> parser_state \<Rightarrow> parser_state" where
  "local_statement i raw st =
     (let lineNum = int i + 1 in
      case currentFunction st of
        None \<Rightarrow> st
      | Some f \<Rightarrow>
          (case str_match raw localVarPattern of
             Some localVarMatch \<Rightarrow>
               add_local \<lparr> var_name = group localVarMatch 2,
                           var_type = type_annotation raw (group localVarMatch 2),
                           var_line = lineNum, var_scope = ScopeLocal \<rparr> st
           | None \<Rightarrow>
               (case str_match raw forPattern of
                  Some forMatch \<Rightarrow>
                    add_local \<lparr> var_name = group forMatch 1, var_type = None,
                                var_line = lineNum, var_scope = ScopeLocal \<rparr> st
                | None \<Rightarrow>
                    (case str_match raw assignPattern of
                       None \<Rightarrow> st
                     | Some assignMatch \<Rightarrow>
                         (let varName = group assignMatch 1;
                              alreadyDeclared =
                                (list_ex (\<lambda>v. var_name v = varName) (localVariables f) \<or>
                                 list_ex (\<lambda>v. var_name v = varName) (ps_classVariables st))
                          in if \<not> alreadyDeclared \<and> \<not> str_includes varName ''.'' \<and>
                                varName \<noteq> ''self''
                             then add_local \<lparr> var_name = varName, var_type = None,
                                              var_line = lineNum, var_scope = ScopeLocal \<rparr> st
                             else st)))))"

text \<open>One turn of the loop, for the line \<open>raw\<close> with index \<open>i\<close>.\<close>

definition parse_line :: "nat \<Rightarrow> string \<Rightarrow> parser_state \<Rightarrow> parser_state" where
  "parse_line i raw st =
     (let lineNum = int i + 1;
          trimmedLine = trimStart raw;
          currentIndent = length raw - length trimmedLine;
          st1 = exit_function i raw st
      in if trimmedLine = [] \<or> startsWith trimmedLine ''#'' then st1
         else
           (case str_match raw funcPattern of
              Some funcMatch \<Rightarrow> start_function i raw funcMatch st1
            | None \<Rightarrow>
                (case (if currentIndent = 0 then str_match raw classVarPattern else None) of
                   Some classVarMatch \<Rightarrow>
                     st1\<lparr> ps_classVariables := ps_classVariables st1 @
                            [\<lparr> var_name = group classVarMatch 2,
                               var_type = type_annotation raw (group classVarMatch 2),
                               var_line = lineNum, var_scope = ScopeClass \<rparr>] \<rparr>
                 | None \<Rightarrow> local_statement i raw st1)))"

definition parser_start :: parser_state where
  "parser_start = \<lparr> ps_classVariables = [], ps_functions = [], currentFunction = None,
     functionIndent = 0 \<rparr>"

definition parse_lines :: "nat \<Rightarrow> string list \<Rightarrow> parser_state \<Rightarrow> parser_state" where
  "parse_lines n ls st = fold (\<lambda>(i, raw). parse_line i raw) (enumerate n ls) st"

definition parseGDScriptContent :: "string \<Rightarrow> ScriptInfo" where
  "parseGDScriptContent content =
     (let ls = split_on CHR 0x0A content;
          st = parse_lines 0 ls parser_start
      in \<lparr> classVariables = ps_classVariables st,
           script_functions = (case currentFunction st of
                          None \<Rightarrow> ps_functions st
                        | Some f \<Rightarrow> ps_functions st @ [f\<lparr> endLine := int (length ls) \<rparr>]) \<rparr>)"

text \<open>\<open>getVariablesAtLine\<close>: the class variables, then the variables of the first
  function whose lines contain \<open>l\<close> that are declared on a line up to \<open>l\<close>.\<close>

definition getVariablesAtLine :: "ScriptInfo \<Rightarrow> int \<Rightarrow> VariableInfo list" where
  "getVariablesAtLine scriptInfo l =
     classVariables scriptInfo @
     (case find (\<lambda>func. l \<ge> startLine func \<and> l \<le> endLine func) (script_functions scriptInfo) of
        None \<Rightarrow> []
      | Some func \<Rightarrow> filter (\<lambda>localVar. var_line localVar \<le> l) (localVariables func))"

section \<open>Properties of the DAP client\<close>

subsection \<open>Frame lemmas\<close>

lemma handleEvent_breakpoints: "breakpoints (handleEvent e c) = breakpoints c"
  by (simp add: handleEvent_def Let_def split: option.splits)

lemma handleMessage_breakpoints: "breakpoints (fst (handleMessage m c)) = breakpoints c"
  by (simp add: handleMessage_def handleEvent_breakpoints split: DAPMessage.splits option.splits)

lemma request_timeout_breakpoints: "breakpoints (fst (request_timeout sq cmd c)) = breakpoints c"
  by (simp add: request_timeout_def)

lemma breakpoint_entry_res: "startsWith (script (breakpoint_entry p bp)) ''res://''"
  by (simp add: breakpoint_entry_def startsWith_def)

subsection \<open>What getBreakpoints reports\<close>

definition with_breakpoints :: "(string \<times> Breakpoint list) list \<Rightarrow> DAPClient" where
  "with_breakpoints reg = new_DAPClient\<lparr> breakpoints := reg \<rparr>"

definition plain_breakpoint :: "int option \<Rightarrow> bool \<Rightarrow> Breakpoint" where
  "plain_breakpoint l v = \<lparr> bp_id = None, verified = v, bp_message = None, bp_source = None,
     bp_line = l, bp_column = None, bp_endLine = None, bp_endColumn = None \<rparr>"

text \<open>
  C10. Every entry that \<open>getBreakpoints\<close> returns has a script path that begins with
  \<open>res://\<close>: it comes from a stored source path, unchanged when that path already
  starts with \<open>res://\<close> and prefixed otherwise, and from one breakpoint stored under
  it; its line is 0 when the breakpoint carries no line (and the breakpoint's line
  otherwise), and \<open>enabled\<close> is the breakpoint's \<open>verified\<close> flag.
\<close>

theorem C10_getBreakpoints_entries:
  assumes "e \<in> set (getBreakpoints c)"
  shows "startsWith (script e) ''res://'' \<and>
    (\<exists>sourcePath bps bp. (sourcePath, bps) \<in> set (breakpoints c) \<and> bp \<in> set bps \<and>
       script e = (if startsWith sourcePath ''res://'' then sourcePath else ''res://'' @ sourcePath) \<and>
       (bp_line bp = None \<longrightarrow> line e = 0) \<and>
       (\<forall>l. bp_line bp = Some l \<longrightarrow> line e = l) \<and>
       enabled e = verified bp)"
proof -
  from assms obtain sourcePath bps bp where
    mem: "(sourcePath, bps) \<in> set (breakpoints c)" "bp \<in> set bps"
    and e: "e = breakpoint_entry sourcePath bp"
    by (auto simp: getBreakpoints_def)
  have 1: "startsWith (script e) ''res://''"
    unfolding e by (rule breakpoint_entry_res)
  have 2: "script e = (if startsWith sourcePath ''res://'' then sourcePath else ''res://'' @ sourcePath)"
    unfolding e by (simp add: breakpoint_entry_def)
  have 3: "bp_line bp = None \<longrightarrow> line e = 0"
    unfolding e by (simp add: breakpoint_entry_def)
  have 4: "\<forall>l. bp_line bp = Some l \<longrightarrow> line e = l"
    unfolding e by (simp add: breakpoint_entry_def)
  have 5: "enabled e = verified bp"
    unfolding e by (simp add: breakpoint_entry_def)
  show ?thesis
    apply (rule conjI[OF 1])
    apply (rule exI[of _ sourcePath], rule exI[of _ bps], rule exI[of _ bp])
    using mem 2 3 4 5 by (intro conjI)
qed

theorem C10_witness:
  "\<lparr> script = ''res://a.gd'', line = 0, enabled = True \<rparr>
     \<in> set (getBreakpoints (with_breakpoints [(''a.gd'', [plain_breakpoint None True])])) \<and>
   startsWith ''res://a.gd'' ''res://''"
proof -
  let ?e = "\<lparr> script = ''res://a.gd'', line = 0, enabled = True \<rparr>"
  let ?c = "with_breakpoints [(''a.gd'', [plain_breakpoint None True])]"
  have mem: "?e \<in> set (getBreakpoints ?c)"
    by (simp add: getBreakpoints_def with_breakpoints_def new_DAPClient_def
        plain_breakpoint_def breakpoint_entry_def startsWith_def)
  from C10_getBreakpoints_entries [OF mem] have "startsWith (script ?e) ''res://''"
    by (rule conjunct1)
  then show ?thesis using mem by simp
qed

subsection \<open>The end of a session\<close>

definition terminated_event :: DAPEvent where
  "terminated_event = \<lparr> ev_seq = 9, event = ''terminated'', ev_body = None \<rparr>"

definition some_capabilities :: Capabilities where
  "some_capabilities = \<lparr> body_breakpoints = None, body_threadId = None,
     body_flags = [(''supportsConfigurationDoneRequest'', True)] \<rparr>"

definition paused_session :: DAPClient where
  "paused_session = new_DAPClient\<lparr> socket := True, connected := True, paused := True,
     currentThreadId := 7, capabilities := Some some_capabilities \<rparr>"

text \<open>
  C6 as stated fails: in a connected session paused on thread 7 with cached
  capabilities, a \<open>terminated\<close> event leaves the client connected, and neither that
  event nor the close of the transport resets the thread id or the capabilities.
\<close>

theorem C6_counterexample:
  "isConnected (handleEvent terminated_event paused_session) \<and>
   getCurrentThreadId (handleEvent terminated_event paused_session) = 7 \<and>
   capabilities (handleEvent terminated_event paused_session) = Some some_capabilities \<and>
   getCurrentThreadId (on_close paused_session) = 7 \<and>
   capabilities (on_close paused_session) = Some some_capabilities"
  by (simp add: handleEvent_def terminated_event_def paused_session_def new_DAPClient_def
      isConnected_def getCurrentThreadId_def on_close_def)

text \<open>
  C6, amended. A \<open>terminated\<close> event clears the paused flag and changes nothing else:
  the client after the event is the client before it with \<open>paused\<close> set to false, so
  the connected flag, the current thread id, the cached capabilities, the breakpoint
  registry, the pending requests, the sequence counter and the receive buffer stay as
  they were. The close of the transport clears the connected and the paused flag and
  drops the socket, and changes nothing else: the current thread id, the cached
  capabilities and the breakpoint registry stay as they were.
\<close>

theorem C6_terminated_and_close:
  assumes "event e = ''terminated''"
  shows "handleEvent e c = c\<lparr> paused := False \<rparr> \<and>
         on_close c = c\<lparr> connected := False, paused := False, socket := False \<rparr> \<and>
         \<not> isPaused (handleEvent e c) \<and>
         isConnected (handleEvent e c) = isConnected c \<and>
         currentThreadId (handleEvent e c) = currentThreadId c \<and>
         capabilities (handleEvent e c) = capabilities c \<and>
         breakpoints (handleEvent e c) = breakpoints c \<and>
         \<not> isConnected (on_close c) \<and> \<not> isPaused (on_close c) \<and>
         currentThreadId (on_close c) = currentThreadId c \<and>
         capabilities (on_close c) = capabilities c \<and>
         breakpoints (on_close c) = breakpoints c"
  using assms by (simp add: handleEvent_def isPaused_def isConnected_def on_close_def)

theorem C6_witness:
  "event terminated_event = ''terminated'' \<and>
   handleEvent terminated_event paused_session = paused_session\<lparr> paused := False \<rparr> \<and>
   \<not> isPaused (handleEvent terminated_event paused_session) \<and>
   isConnected (handleEvent terminated_event paused_session) \<and>
   \<not> isConnected (on_close paused_session) \<and>
   capabilities (on_close paused_session) = Some some_capabilities"
proof -
  have ev: "event terminated_event = ''terminated''" by (simp add: terminated_event_def)
  have conn: "isConnected paused_session" "capabilities paused_session = Some some_capabilities"
    by (simp_all add: paused_session_def isConnected_def new_DAPClient_def)
  note t = C6_terminated_and_close [OF ev, of paused_session]
  have 1: "handleEvent terminated_event paused_session = paused_session\<lparr> paused := False \<rparr>"
    using t by (rule conjunct1)
  have 2: "\<not> isPaused (handleEvent terminated_event paused_session)"
    "\<not> isConnected (on_close paused_session)"
    using t by blast+
  have "isConnected (handleEvent terminated_event paused_session) = isConnected paused_session"
    using t by blast
  then have 3: "isConnected (handleEvent terminated_event paused_session)"
    using conn(1) by (simp only:)
  have "capabilities (on_close paused_session) = capabilities paused_session"
    using t by blast
  then have 4: "capabilities (on_close paused_session) = Some some_capabilities"
    using conn(2) by (simp only:)
  from ev 1 2 3 4 show ?thesis by (intro conjI)
qed

subsection \<open>Requests and their responses\<close>

definition pending_below :: "DAPClient \<Rightarrow> bool" where
  "pending_below c = (\<forall>k. pendingRequests c k \<noteq> None \<longrightarrow> k < sequenceNumber c)"

lemma sendRequest_pending:
  "sendRequest cmd args c = (c1, res) \<Longrightarrow>
     sequenceNumber c \<le> sequenceNumber c1 \<and>
     (\<forall>k. pendingRequests c1 k \<noteq> None \<longrightarrow> pendingRequests c k \<noteq> None \<or> (k = sequenceNumber c \<and> k < sequenceNumber c1))"
  by (auto simp: sendRequest_def Let_def split: if_splits)

lemma handleMessage_cases:
  "handleMessage m c = (c1, s1) \<Longrightarrow>
     sequenceNumber c1 = sequenceNumber c \<and>
     ((s1 = [] \<and> pendingRequests c1 = pendingRequests c) \<or>
      (\<exists>k out. s1 = [(k, out)] \<and> pendingRequests c k \<noteq> None \<and>
         pendingRequests c1 = (pendingRequests c)(k := None)))"
  by (auto simp: handleMessage_def handleEvent_def Let_def split: DAPMessage.splits option.splits if_splits)

lemma request_timeout_cases:
  "request_timeout sq cmd c = (c1, s1) \<Longrightarrow>
     sequenceNumber c1 = sequenceNumber c \<and>
     ((s1 = [] \<and> pendingRequests c1 = pendingRequests c) \<or>
      (\<exists>k out. s1 = [(k, out)] \<and> pendingRequests c k \<noteq> None \<and>
         pendingRequests c1 = (pendingRequests c)(k := None)))"
  by (auto simp: request_timeout_def split: if_splits)

lemma client_step_cases:
  assumes "client_step e c = (c1, s1)"
  shows "sequenceNumber c \<le> sequenceNumber c1 \<and>
     ((s1 = [] \<and> (\<forall>k. pendingRequests c1 k \<noteq> None \<longrightarrow>
          pendingRequests c k \<noteq> None \<or> (k = sequenceNumber c \<and> k < sequenceNumber c1))) \<or>
      (\<exists>k out. s1 = [(k, out)] \<and> pendingRequests c k \<noteq> None \<and>
         pendingRequests c1 = (pendingRequests c)(k := None) \<and>
         sequenceNumber c1 = sequenceNumber c))"
proof (cases e)
  case (Call cmd args)
  obtain c' res where sr: "sendRequest cmd args c = (c', res)" by (cases "sendRequest cmd args c")
  with assms Call have "c1 = c'" "s1 = []" by auto
  with sendRequest_pending [OF sr] show ?thesis by blast
next
  case (Incoming m)
  with assms have "handleMessage m c = (c1, s1)" by simp
  from handleMessage_cases [OF this] show ?thesis by auto
next
  case (Timer sq cmd)
  with assms have "request_timeout sq cmd c = (c1, s1)" by simp
  from request_timeout_cases [OF this] show ?thesis by auto
qed

lemma client_step_pending_below:
  assumes "client_step e c = (c1, s1)" "pending_below c"
  shows "pending_below c1"
  using client_step_cases [OF assms(1)] assms(2)
  unfolding pending_below_def by (fastforce split: if_splits)

lemma client_run_keys:
  "client_run es c = (c', ss) \<Longrightarrow> k \<in> fst ` set ss \<Longrightarrow>
     pendingRequests c k \<noteq> None \<or> sequenceNumber c \<le> k"
proof (induction es arbitrary: c c' ss)
  case Nil
  then show ?case by simp
next
  case (Cons e es)
  obtain c1 s1 where st: "client_step e c = (c1, s1)" by (cases "client_step e c")
  obtain c2 s2 where rn: "client_run es c1 = (c2, s2)" by (cases "client_run es c1")
  from Cons.prems st rn have ss: "ss = s1 @ s2" by simp
  note cs = client_step_cases [OF st]
  from Cons.prems(2) ss consider "k \<in> fst ` set s1" | "k \<in> fst ` set s2" by auto
  then show ?case
  proof cases
    case 1
    with cs show ?thesis by auto
  next
    case 2
    from Cons.IH [OF rn 2] have "pendingRequests c1 k \<noteq> None \<or> sequenceNumber c1 \<le> k" .
    with cs show ?thesis by (fastforce split: if_splits)
  qed
qed

lemma client_run_distinct:
  "client_run es c = (c', ss) \<Longrightarrow> pending_below c \<Longrightarrow> distinct (map fst ss)"
proof (induction es arbitrary: c c' ss)
  case Nil
  then show ?case by simp
next
  case (Cons e es)
  obtain c1 s1 where st: "client_step e c = (c1, s1)" by (cases "client_step e c")
  obtain c2 s2 where rn: "client_run es c1 = (c2, s2)" by (cases "client_run es c1")
  from Cons.prems st rn have ss: "ss = s1 @ s2" by simp
  note cs = client_step_cases [OF st]
  have pb: "pending_below c1" by (rule client_step_pending_below [OF st Cons.prems(2)])
  have d2: "distinct (map fst s2)" by (rule Cons.IH [OF rn pb])
  from cs consider "s1 = []" | k out where "s1 = [(k, out)]" "pendingRequests c k \<noteq> None"
      "pendingRequests c1 = (pendingRequests c)(k := None)" "sequenceNumber c1 = sequenceNumber c"
    by blast
  then show ?case
  proof cases
    case 1
    with d2 ss show ?thesis by simp
  next
    case 2
    have "k \<notin> fst ` set s2"
    proof
      assume "k \<in> fst ` set s2"
      from client_run_keys [OF rn this] have "pendingRequests c1 k \<noteq> None \<or> sequenceNumber c1 \<le> k" .
      moreover have "pendingRequests c1 k = None" using 2(3) by simp
      moreover have "k < sequenceNumber c" using Cons.prems(2) 2(2) by (simp add: pending_below_def)
      ultimately show False using 2(4) by simp
    qed
    with d2 ss 2(1) show ?thesis by simp
  qed
qed


lemma handleMessage_origin:
  assumes "handleMessage m c = (c1, s1)" "(k, out) \<in> set s1"
  shows "\<exists>r. m = Response r \<and> request_seq r = k \<and>
           out = (if success r then Resolved r else Rejected (rejection_text r))"
  using assms
  by (auto simp: handleMessage_def split: DAPMessage.splits option.splits)

lemma request_timeout_origin:
  assumes "request_timeout sq cmd c = (c1, s1)" "(k, out) \<in> set s1"
  shows "k = sq \<and> out = Rejected (''DAP request timeout: '' @ cmd)"
  using assms by (auto simp: request_timeout_def split: if_splits)

lemma client_step_origin:
  assumes "client_step e c = (c1, s1)" "(k, out) \<in> set s1"
  shows "(\<exists>r. e = Incoming (Response r) \<and> request_seq r = k \<and>
             out = (if success r then Resolved r else Rejected (rejection_text r))) \<or>
         (\<exists>cmd. e = Timer k cmd \<and> out = Rejected (''DAP request timeout: '' @ cmd))"
proof (cases e)
  case (Call cmd args)
  with assms show ?thesis by simp
next
  case (Incoming m)
  with assms have "handleMessage m c = (c1, s1)" by simp
  from handleMessage_origin [OF this assms(2)] Incoming show ?thesis by blast
next
  case (Timer sq cmd)
  with assms have "request_timeout sq cmd c = (c1, s1)" by simp
  from request_timeout_origin [OF this assms(2)] Timer show ?thesis by blast
qed

lemma client_run_origin:
  "client_run es c = (c', ss) \<Longrightarrow> (k, out) \<in> set ss \<Longrightarrow>
     (\<exists>r. Incoming (Response r) \<in> set es \<and> request_seq r = k \<and>
          out = (if success r then Resolved r else Rejected (rejection_text r))) \<or>
     (\<exists>cmd. Timer k cmd \<in> set es \<and> out = Rejected (''DAP request timeout: '' @ cmd))"
proof (induction es arbitrary: c c' ss)
  case Nil
  then show ?case by simp
next
  case (Cons e es)
  obtain c1 s1 where st: "client_step e c = (c1, s1)" by (cases "client_step e c")
  obtain c2 s2 where rn: "client_run es c1 = (c2, s2)" by (cases "client_run es c1")
  from Cons.prems st rn have ss: "ss = s1 @ s2" by simp
  from Cons.prems(2) ss consider "(k, out) \<in> set s1" | "(k, out) \<in> set s2" by auto
  then show ?case
  proof cases
    case 1
    from client_step_origin [OF st 1] show ?thesis by auto
  next
    case 2
    from Cons.IH [OF rn 2] show ?thesis by auto
  qed
qed

lemma handleMessage_response_pending:
  assumes "pendingRequests c (request_seq r) = Some cmd"
  shows "handleMessage (Response r) c =
     (c\<lparr> pendingRequests := (pendingRequests c)(request_seq r := None) \<rparr>,
      [(request_seq r, if success r then Resolved r else Rejected (rejection_text r))])"
  using assms by (simp add: handleMessage_def)

lemma handleMessage_response_unknown:
  assumes "pendingRequests c (request_seq r) = None"
  shows "handleMessage (Response r) c = (c, [])"
  using assms by (simp add: handleMessage_def)

lemma rejection_text_supplied: "message r = Some m \<Longrightarrow> m \<noteq> [] \<Longrightarrow> rejection_text r = m"
  by (simp add: rejection_text_def)

lemma late_response_ignored:
  assumes "pendingRequests c k \<noteq> None" "request_seq r = k"
  shows "request_timeout k cmd c =
           (c\<lparr> pendingRequests := (pendingRequests c)(k := None) \<rparr>,
            [(k, Rejected (''DAP request timeout: '' @ cmd))]) \<and>
         handleMessage (Response r) (fst (request_timeout k cmd c)) =
           (fst (request_timeout k cmd c), [])"
  using assms by (simp add: request_timeout_def handleMessage_def)

lemma responses_commute:
  assumes "request_seq r1 \<noteq> request_seq r2"
  shows "fst (client_run [Incoming (Response r1), Incoming (Response r2)] c) =
         fst (client_run [Incoming (Response r2), Incoming (Response r1)] c) \<and>
         set (snd (client_run [Incoming (Response r1), Incoming (Response r2)] c)) =
         set (snd (client_run [Incoming (Response r2), Incoming (Response r1)] c))"
  using assms
  by (cases "pendingRequests c (request_seq r1)"; cases "pendingRequests c (request_seq r2)")
     (auto simp: handleMessage_def fun_upd_twist)

text \<open>
  C1. Take any run of the client: calls, arriving messages and request timers in any
  order, from a state whose pending sequence numbers are all below the next one to be
  allocated (a new client is such a state). No sequence number is settled twice. A
  request resolved with response \<open>r\<close> has \<open>request_seq r\<close> as its number and \<open>r\<close> was
  successful; a rejected request was either answered by a failed response with its
  number, and is rejected with that response's text, or its own timer fired. In the
  state reached, a response settles the pending request of its \<open>request_seq\<close> and removes
  only that entry: resolved when \<open>success\<close> is true, rejected with the message the server
  supplied (when there is one and it is not empty) otherwise; a response whose number is
  not pending changes nothing. A timer that fires for a pending request removes it and
  rejects it, and a response that arrives for it afterwards has no effect. Two responses
  for different requests give the same state and the same settlements in either order.
\<close>

theorem C1_responses_settle_by_sequence_number:
  assumes "pending_below c" and "client_run es c = (c', ss)"
  shows "distinct (map fst ss) \<and>
    (\<forall>k r. (k, Resolved r) \<in> set ss \<longrightarrow>
       request_seq r = k \<and> success r \<and> Incoming (Response r) \<in> set es) \<and>
    (\<forall>k t. (k, Rejected t) \<in> set ss \<longrightarrow>
       (\<exists>r. Incoming (Response r) \<in> set es \<and> request_seq r = k \<and> \<not> success r \<and>
            t = rejection_text r) \<or>
       (\<exists>cmd. Timer k cmd \<in> set es \<and> t = ''DAP request timeout: '' @ cmd)) \<and>
    (\<forall>r cmd. pendingRequests c' (request_seq r) = Some cmd \<longrightarrow>
       handleMessage (Response r) c' =
         (c'\<lparr> pendingRequests := (pendingRequests c')(request_seq r := None) \<rparr>,
          [(request_seq r, if success r then Resolved r else Rejected (rejection_text r))])) \<and>
    (\<forall>r. pendingRequests c' (request_seq r) = None \<longrightarrow>
       handleMessage (Response r) c' = (c', [])) \<and>
    (\<forall>r m. message r = Some m \<longrightarrow> m \<noteq> [] \<longrightarrow> rejection_text r = m) \<and>
    (\<forall>k cmd r. pendingRequests c' k \<noteq> None \<longrightarrow> request_seq r = k \<longrightarrow>
       request_timeout k cmd c' =
         (c'\<lparr> pendingRequests := (pendingRequests c')(k := None) \<rparr>,
          [(k, Rejected (''DAP request timeout: '' @ cmd))]) \<and>
       handleMessage (Response r) (fst (request_timeout k cmd c')) =
         (fst (request_timeout k cmd c'), [])) \<and>
    (\<forall>r1 r2. request_seq r1 \<noteq> request_seq r2 \<longrightarrow>
       fst (client_run [Incoming (Response r1), Incoming (Response r2)] c') =
       fst (client_run [Incoming (Response r2), Incoming (Response r1)] c') \<and>
       set (snd (client_run [Incoming (Response r1), Incoming (Response r2)] c')) =
       set (snd (client_run [Incoming (Response r2), Incoming (Response r1)] c')))"
proof -
  have 1: "distinct (map fst ss)"
    by (rule client_run_distinct [OF assms(2) assms(1)])
  have 2: "\<forall>k r. (k, Resolved r) \<in> set ss \<longrightarrow>
       request_seq r = k \<and> success r \<and> Incoming (Response r) \<in> set es"
  proof (intro allI impI)
    fix k r assume "(k, Resolved r) \<in> set ss"
    from client_run_origin [OF assms(2) this]
    show "request_seq r = k \<and> success r \<and> Incoming (Response r) \<in> set es"
      by (auto split: if_splits)
  qed
  have 3: "\<forall>k t. (k, Rejected t) \<in> set ss \<longrightarrow>
       (\<exists>r. Incoming (Response r) \<in> set es \<and> request_seq r = k \<and> \<not> success r \<and>
            t = rejection_text r) \<or>
       (\<exists>cmd. Timer k cmd \<in> set es \<and> t = ''DAP request timeout: '' @ cmd)"
  proof (intro allI impI)
    fix k t assume "(k, Rejected t) \<in> set ss"
    from client_run_origin [OF assms(2) this]
    show "(\<exists>r. Incoming (Response r) \<in> set es \<and> request_seq r = k \<and> \<not> success r \<and>
            t = rejection_text r) \<or>
       (\<exists>cmd. Timer k cmd \<in> set es \<and> t = ''DAP request timeout: '' @ cmd)"
      by (auto split: if_splits)
  qed
  show ?thesis
    using 1 2 3 handleMessage_response_pending handleMessage_response_unknown
      rejection_text_supplied late_response_ignored responses_commute
    by (intro conjI allI impI) blast+
qed


definition connected_client :: DAPClient where
  "connected_client = new_DAPClient\<lparr> socket := True, connected := True \<rparr>"

definition reply :: "int \<Rightarrow> bool \<Rightarrow> string option \<Rightarrow> DAPResponse" where
  "reply k ok msg = \<lparr> seq = 0, request_seq = k, success = ok, command = ''evaluate'',
     body = None, message = msg \<rparr>"

definition two_requests_run :: "client_event list" where
  "two_requests_run =
     [Call ''threads'' [], Call ''evaluate'' [],
      Incoming (Response (reply 2 True None)),
      Timer 1 ''threads'',
      Incoming (Response (reply 1 True None))]"

lemma two_requests_run_result:
  "snd (client_run two_requests_run connected_client) =
     [(2, Resolved (reply 2 True None)), (1, Rejected ''DAP request timeout: threads'')]"
  by (simp add: two_requests_run_def connected_client_def new_DAPClient_def sendRequest_def
      handleMessage_def request_timeout_def reply_def Let_def)

theorem C1_witness:
  "pending_below connected_client \<and>
   snd (client_run two_requests_run connected_client) =
     [(2, Resolved (reply 2 True None)), (1, Rejected ''DAP request timeout: threads'')] \<and>
   distinct (map fst (snd (client_run two_requests_run connected_client)))"
proof -
  have pb: "pending_below connected_client"
    by (simp add: pending_below_def connected_client_def new_DAPClient_def)
  have rn: "client_run two_requests_run connected_client =
      (fst (client_run two_requests_run connected_client),
       snd (client_run two_requests_run connected_client))"
    by simp
  from C1_responses_settle_by_sequence_number [OF pb rn]
  have "distinct (map fst (snd (client_run two_requests_run connected_client)))"
    by (rule conjunct1)
  with pb two_requests_run_result show ?thesis by simp
qed


subsection \<open>The breakpoint registry\<close>

definition answer_ok :: "(int \<Rightarrow> bool) \<Rightarrow> int list \<Rightarrow> int \<Rightarrow> happening" where
  "answer_ok v lines sq = Arrives (Response
     \<lparr> seq = 0, request_seq = sq, success = True, command = ''setBreakpoints'',
       body = Some \<lparr> body_breakpoints = Some (map (\<lambda>l. plain_breakpoint (Some l) (v l)) lines),
                     body_threadId = None, body_flags = [] \<rparr>,
       message = None \<rparr>)"

lemma Map_get_Map_set: "Map_get (Map_set k v m) k' = (if k' = k then Some v else Map_get m k')"
  by (induction m) auto

text \<open>The breakpoints that a response body carries:
  \<open>(response.body.breakpoints as Breakpoint[]) || []\<close>.\<close>

definition returned_breakpoints :: "Body \<Rightarrow> Breakpoint list" where
  "returned_breakpoints b = (case body_breakpoints b of None \<Rightarrow> [] | Some l \<Rightarrow> l)"

lemma setBreakpoints_call_answered:
  assumes "socket c" "connected c"
    and "happens (sequenceNumber c) = Arrives (Response r)"
    and "request_seq r = sequenceNumber c" "success r" "body r = Some b"
  shows "setBreakpoints_call p lines happens c =
     (c\<lparr> sequenceNumber := sequenceNumber c + 1,
         pendingRequests := (pendingRequests c)(sequenceNumber c := None),
         breakpoints := Map_set p (returned_breakpoints b) (breakpoints c) \<rparr>,
      Some (Inr (returned_breakpoints b)))"
  using assms
  by (simp add: setBreakpoints_call_def setBreakpoints_send_def sendRequest_def Let_def
      handleMessage_def setBreakpoints_resume_def returned_breakpoints_def)

lemma setBreakpoints_call_no_body:
  assumes "socket c" "connected c"
    and "happens (sequenceNumber c) = Arrives (Response r)"
    and "request_seq r = sequenceNumber c" "success r" "body r = None"
  shows "snd (setBreakpoints_call p lines happens c) = Some (Inr []) \<and>
         breakpoints (fst (setBreakpoints_call p lines happens c)) = breakpoints c"
  using assms
  by (simp add: setBreakpoints_call_def setBreakpoints_send_def sendRequest_def Let_def
      handleMessage_def setBreakpoints_resume_def)

lemma Map_set_twice: "Map_set k v (Map_set k w m) = Map_set k v m"
  by (induction m) auto

text \<open>
  C8. Take a connected client and two calls of \<open>setBreakpoints\<close> for the same source
  path \<open>p\<close>, with any requested lines, each answered by a successful response that
  carries a body. Each call returns the breakpoints of its response. After the second
  call the registry is the registry from before the first call with the entry of \<open>p\<close>
  set to the breakpoints of the second response, whatever they are (an empty list
  included) and whatever the first response carried: the entry is replaced, not merged,
  and the entries of all other paths are as they were. \<open>getBreakpoints\<close> reports the
  entries of exactly that registry, it depends on nothing but the registry, and it
  returns no new state. From an empty registry it reports exactly the breakpoints of
  the second response under \<open>p\<close>; for \<open>a.gd\<close> and a second response that returns the one
  requested line 5 that is exactly one breakpoint, at line 5 of \<open>res://a.gd\<close>.
\<close>

theorem C8_reregistration_replaces:
  assumes "socket c" "connected c"
    and "happens1 (sequenceNumber c) = Arrives (Response r1)"
    and "request_seq r1 = sequenceNumber c" "success r1" "body r1 = Some b1"
    and "happens2 (sequenceNumber c + 1) = Arrives (Response r2)"
    and "request_seq r2 = sequenceNumber c + 1" "success r2" "body r2 = Some b2"
  shows "(let first = setBreakpoints_call p lines1 happens1 c;
              second = setBreakpoints_call p lines2 happens2 (fst first);
              c2 = fst second
          in snd first = Some (Inr (returned_breakpoints b1)) \<and>
             snd second = Some (Inr (returned_breakpoints b2)) \<and>
             breakpoints (fst first) = Map_set p (returned_breakpoints b1) (breakpoints c) \<and>
             breakpoints c2 = Map_set p (returned_breakpoints b2) (breakpoints c) \<and>
             Map_get (breakpoints c2) p = Some (returned_breakpoints b2) \<and>
             (\<forall>q. q \<noteq> p \<longrightarrow> Map_get (breakpoints c2) q = Map_get (breakpoints c) q) \<and>
             getBreakpoints c2 =
               concat (map (\<lambda>(q, bps). map (breakpoint_entry q) bps)
                           (Map_set p (returned_breakpoints b2) (breakpoints c))) \<and>
             (breakpoints c = [] \<longrightarrow>
                getBreakpoints c2 = map (breakpoint_entry p) (returned_breakpoints b2)) \<and>
             (\<forall>d. breakpoints d = breakpoints c2 \<longrightarrow> getBreakpoints d = getBreakpoints c2) \<and>
             (\<forall>v. breakpoints c = [] \<longrightarrow> p = ''a.gd'' \<longrightarrow>
                returned_breakpoints b2 = [plain_breakpoint (Some 5) v] \<longrightarrow>
                getBreakpoints c2 = [\<lparr> script = ''res://a.gd'', line = 5, enabled = v \<rparr>]))"
proof -
  let ?first = "setBreakpoints_call p lines1 happens1 c"
  let ?c1 = "fst ?first"
  let ?second = "setBreakpoints_call p lines2 happens2 ?c1"
  let ?c2 = "fst ?second"
  have f: "?first = (c\<lparr> sequenceNumber := sequenceNumber c + 1,
         pendingRequests := (pendingRequests c)(sequenceNumber c := None),
         breakpoints := Map_set p (returned_breakpoints b1) (breakpoints c) \<rparr>,
      Some (Inr (returned_breakpoints b1)))"
    by (rule setBreakpoints_call_answered
        [where happens = happens1 and c = c and r = r1 and b = b1, OF assms(1-6)])
  have s1: "socket ?c1" "connected ?c1" "sequenceNumber ?c1 = sequenceNumber c + 1"
    and b1: "breakpoints ?c1 = Map_set p (returned_breakpoints b1) (breakpoints c)"
    using assms(1,2) by (simp_all add: f)
  have h2: "happens2 (sequenceNumber ?c1) = Arrives (Response r2)"
    "request_seq r2 = sequenceNumber ?c1"
    using assms(7,8) by (simp_all only: s1(3))
  have s: "?second = (?c1\<lparr> sequenceNumber := sequenceNumber ?c1 + 1,
         pendingRequests := (pendingRequests ?c1)(sequenceNumber ?c1 := None),
         breakpoints := Map_set p (returned_breakpoints b2) (breakpoints ?c1) \<rparr>,
      Some (Inr (returned_breakpoints b2)))"
    by (rule setBreakpoints_call_answered
        [where happens = happens2 and c = "?c1" and r = r2 and b = b2, OF s1(1,2) h2 assms(9,10)])
  have 1: "snd ?first = Some (Inr (returned_breakpoints b1))" by (simp only: f snd_conv)
  have 2: "snd ?second = Some (Inr (returned_breakpoints b2))" by (simp only: s snd_conv)
  have "breakpoints ?c2 = Map_set p (returned_breakpoints b2) (breakpoints ?c1)"
    by (simp add: s)
  then have 4: "breakpoints ?c2 = Map_set p (returned_breakpoints b2) (breakpoints c)"
    by (simp only: b1 Map_set_twice)
  have 5: "Map_get (breakpoints ?c2) p = Some (returned_breakpoints b2)"
    by (simp add: 4 Map_get_Map_set)
  have 6: "\<forall>q. q \<noteq> p \<longrightarrow> Map_get (breakpoints ?c2) q = Map_get (breakpoints c) q"
    by (simp add: 4 Map_get_Map_set)
  have 7: "getBreakpoints ?c2 =
               concat (map (\<lambda>(q, bps). map (breakpoint_entry q) bps)
                           (Map_set p (returned_breakpoints b2) (breakpoints c)))"
    by (simp only: getBreakpoints_def 4)
  have 8: "breakpoints c = [] \<longrightarrow>
                getBreakpoints ?c2 = map (breakpoint_entry p) (returned_breakpoints b2)"
    by (simp add: 7)
  have 9: "\<forall>d. breakpoints d = breakpoints ?c2 \<longrightarrow> getBreakpoints d = getBreakpoints ?c2"
    by (simp add: getBreakpoints_def)
  have 10: "\<forall>v. breakpoints c = [] \<longrightarrow> p = ''a.gd'' \<longrightarrow>
                returned_breakpoints b2 = [plain_breakpoint (Some 5) v] \<longrightarrow>
                getBreakpoints ?c2 = [\<lparr> script = ''res://a.gd'', line = 5, enabled = v \<rparr>]"
  proof (intro allI impI)
    fix v
    assume e: "breakpoints c = []" and a: "p = ''a.gd''"
      and r: "returned_breakpoints b2 = [plain_breakpoint (Some 5) v]"
    from 8 e have "getBreakpoints ?c2 = map (breakpoint_entry p) (returned_breakpoints b2)"
      by blast
    also have "\<dots> = [\<lparr> script = ''res://a.gd'', line = 5, enabled = v \<rparr>]"
      by (simp add: r a breakpoint_entry_def plain_breakpoint_def startsWith_def)
    finally show "getBreakpoints ?c2 = [\<lparr> script = ''res://a.gd'', line = 5, enabled = v \<rparr>]" .
  qed
  show ?thesis
    unfolding Let_def using 1 2 b1 4 5 6 7 8 9 10 by (intro conjI)
qed

theorem C8_witness:
  "socket connected_client \<and> connected connected_client \<and>
   getBreakpoints
     (fst (setBreakpoints_call ''a.gd'' [5] (answer_ok (\<lambda>l. True) [5])
        (fst (setBreakpoints_call ''a.gd'' [1, 2] (answer_ok (\<lambda>l. True) [1, 2]) connected_client))))
   = [\<lparr> script = ''res://a.gd'', line = 5, enabled = True \<rparr>]"
proof -
  let ?b1 = "\<lparr> body_breakpoints = Some (map (\<lambda>l. plain_breakpoint (Some l) True) [1, 2]),
                     body_threadId = None, body_flags = [] \<rparr>"
  let ?b2 = "\<lparr> body_breakpoints = Some (map (\<lambda>l. plain_breakpoint (Some l) True) [5]),
                     body_threadId = None, body_flags = [] \<rparr>"
  let ?r1 = "\<lparr> seq = 0, request_seq = 1, success = True, command = ''setBreakpoints'',
       body = Some ?b1, message = None \<rparr>"
  let ?r2 = "\<lparr> seq = 0, request_seq = 2, success = True, command = ''setBreakpoints'',
       body = Some ?b2, message = None \<rparr>"
  have s: "socket connected_client" "connected connected_client"
    and b: "breakpoints connected_client = []"
    and n: "sequenceNumber connected_client = 1"
    by (simp_all add: connected_client_def new_DAPClient_def)
  have h1: "answer_ok (\<lambda>l. True) [1, 2] (sequenceNumber connected_client) = Arrives (Response ?r1)"
    "request_seq ?r1 = sequenceNumber connected_client" "success ?r1" "body ?r1 = Some ?b1"
    by (simp_all add: answer_ok_def n)
  have h2: "answer_ok (\<lambda>l. True) [5] (sequenceNumber connected_client + 1) = Arrives (Response ?r2)"
    "request_seq ?r2 = sequenceNumber connected_client + 1" "success ?r2" "body ?r2 = Some ?b2"
    by (simp_all add: answer_ok_def n)
  have r: "returned_breakpoints ?b2 = [plain_breakpoint (Some 5) True]"
    by (simp add: returned_breakpoints_def)
  note t = C8_reregistration_replaces [where c = connected_client and ?happens1.0 = "answer_ok (\<lambda>l. True) [1, 2]"
      and ?happens2.0 = "answer_ok (\<lambda>l. True) [5]" and ?r1.0 = "?r1" and ?r2.0 = "?r2"
      and ?b1.0 = "?b1" and ?b2.0 = "?b2" and p = "''a.gd''" and ?lines1.0 = "[1, 2]"
      and ?lines2.0 = "[5]", OF s h1 h2, unfolded Let_def]
  from t b r have "getBreakpoints
     (fst (setBreakpoints_call ''a.gd'' [5] (answer_ok (\<lambda>l. True) [5])
        (fst (setBreakpoints_call ''a.gd'' [1, 2] (answer_ok (\<lambda>l. True) [1, 2]) connected_client))))
   = [\<lparr> script = ''res://a.gd'', line = 5, enabled = True \<rparr>]"
    by blast
  with s show ?thesis by (intro conjI)
qed


lemma client_step_breakpoints: "breakpoints (fst (client_step e c)) = breakpoints c"
proof (cases e)
  case (Call cmd args)
  then show ?thesis by (simp add: sendRequest_def Let_def)
next
  case (Incoming m)
  then show ?thesis by (simp add: handleMessage_breakpoints)
next
  case (Timer sq cmd)
  then show ?thesis by (simp add: request_timeout_breakpoints)
qed

lemma client_run_breakpoints: "breakpoints (fst (client_run es c)) = breakpoints c"
proof (induction es arbitrary: c)
  case Nil
  then show ?case by simp
next
  case (Cons e es)
  have "breakpoints (fst (client_run es (fst (client_step e c)))) = breakpoints c"
    by (simp add: Cons.IH client_step_breakpoints)
  then show ?case by (simp add: split_beta Let_def)
qed

lemma setBreakpoints_call_timeout:
  assumes "socket c" "connected c" "happens (sequenceNumber c) = TimerFires"
  shows "snd (setBreakpoints_call p lines happens c) =
           Some (Inl ''DAP request timeout: setBreakpoints'') \<and>
         breakpoints (fst (setBreakpoints_call p lines happens c)) = breakpoints c"
  using assms
  by (simp add: setBreakpoints_call_def setBreakpoints_send_def sendRequest_def Let_def
      request_timeout_def setBreakpoints_resume_def)

lemma setBreakpoints_call_failed:
  assumes "socket c" "connected c" "happens (sequenceNumber c) = Arrives (Response r)"
    "request_seq r = sequenceNumber c" "\<not> success r"
  shows "snd (setBreakpoints_call p lines happens c) = Some (Inl (rejection_text r)) \<and>
         breakpoints (fst (setBreakpoints_call p lines happens c)) = breakpoints c"
  using assms
  by (simp add: setBreakpoints_call_def setBreakpoints_send_def sendRequest_def Let_def
      handleMessage_def setBreakpoints_resume_def)

lemma setBreakpoints_call_not_connected:
  assumes "\<not> socket c \<or> \<not> connected c"
  shows "setBreakpoints_call p lines happens c = (c, Some (Inl ''Not connected to DAP server''))"
  using assms
  by (auto simp add: setBreakpoints_call_def setBreakpoints_send_def sendRequest_def)

text \<open>
  C9. A call of \<open>setBreakpoints\<close> on a connected client whose request times out, or is
  answered by a response with \<open>success = false\<close>, is rejected (with the timeout text, or
  the response's text) and leaves the breakpoint registry as it was. The same holds
  when the rejection comes after any other calls, messages and timers: none of them
  changes the registry, and the rest of \<open>setBreakpoints\<close> that runs on a rejection
  changes nothing.
\<close>

theorem C9_failed_setBreakpoints_keeps_registry:
  assumes "socket c" "connected c"
  shows
   "(happens (sequenceNumber c) = TimerFires \<longrightarrow>
       snd (setBreakpoints_call p lines happens c) =
         Some (Inl ''DAP request timeout: setBreakpoints'') \<and>
       breakpoints (fst (setBreakpoints_call p lines happens c)) = breakpoints c) \<and>
    (\<forall>r. happens (sequenceNumber c) = Arrives (Response r) \<longrightarrow>
       request_seq r = sequenceNumber c \<longrightarrow> \<not> success r \<longrightarrow>
       snd (setBreakpoints_call p lines happens c) = Some (Inl (rejection_text r)) \<and>
       breakpoints (fst (setBreakpoints_call p lines happens c)) = breakpoints c) \<and>
    (\<forall>es err. setBreakpoints_resume p (Rejected err) (fst (client_run es c)) =
       (fst (client_run es c), Inl err) \<and>
       breakpoints (fst (client_run es c)) = breakpoints c)"
proof -
  have 3: "\<forall>es err. setBreakpoints_resume p (Rejected err) (fst (client_run es c)) =
       (fst (client_run es c), Inl err) \<and>
       breakpoints (fst (client_run es c)) = breakpoints c"
    by (simp add: setBreakpoints_resume_def client_run_breakpoints)
  show ?thesis
    using setBreakpoints_call_timeout [OF assms] setBreakpoints_call_failed [OF assms] 3
    by (intro conjI allI impI) blast+
qed

theorem C9_witness:
  "socket connected_client \<and> connected connected_client \<and>
   setBreakpoints_call ''a.gd'' [5]
     (\<lambda>sq. Arrives (Response (reply sq False (Some ''no such file''))))
     (with_breakpoints [(''a.gd'', [plain_breakpoint (Some 1) True])]
        \<lparr> socket := True, connected := True \<rparr>)
   = (with_breakpoints [(''a.gd'', [plain_breakpoint (Some 1) True])]
        \<lparr> socket := True, connected := True, sequenceNumber := 2 \<rparr>,
      Some (Inl ''no such file'')) \<and>
   snd (setBreakpoints_call ''a.gd'' [5] (\<lambda>sq. TimerFires) connected_client) =
     Some (Inl ''DAP request timeout: setBreakpoints'')"
proof -
  have s: "socket connected_client" "connected connected_client"
    by (simp_all add: connected_client_def new_DAPClient_def)
  have t: "(\<lambda>sq. TimerFires) (sequenceNumber connected_client) = TimerFires" by simp
  from C9_failed_setBreakpoints_keeps_registry [OF s, of "\<lambda>sq. TimerFires" "''a.gd''" "[5]"]
  have "snd (setBreakpoints_call ''a.gd'' [5] (\<lambda>sq. TimerFires) connected_client) =
     Some (Inl ''DAP request timeout: setBreakpoints'')"
    by simp
  moreover have "setBreakpoints_call ''a.gd'' [5]
     (\<lambda>sq. Arrives (Response (reply sq False (Some ''no such file''))))
     (with_breakpoints [(''a.gd'', [plain_breakpoint (Some 1) True])]
        \<lparr> socket := True, connected := True \<rparr>)
   = (with_breakpoints [(''a.gd'', [plain_breakpoint (Some 1) True])]
        \<lparr> socket := True, connected := True, sequenceNumber := 2 \<rparr>,
      Some (Inl ''no such file''))"
    by (simp add: setBreakpoints_call_def setBreakpoints_send_def sendRequest_def Let_def
      handleMessage_def setBreakpoints_resume_def with_breakpoints_def new_DAPClient_def
      reply_def rejection_text_def)
  ultimately show ?thesis using s by simp
qed

section \<open>Properties of the telemetry buffers\<close>

lemma drop_append_within: "d \<le> length A \<Longrightarrow> drop d A @ B = drop d (A @ B)"
  by simp

lemma push_error_maxSize: "maxSize (push_error b e) = maxSize b"
  by (simp add: push_error_def Let_def)

lemma push_error_length:
  "0 < maxSize b \<Longrightarrow> length (errors b) \<le> maxSize b \<Longrightarrow>
     length (errors (push_error b e)) \<le> maxSize b"
  by (auto simp: push_error_def Let_def)

lemma push_error_drop:
  assumes "0 < maxSize b" "length (errors b) \<le> maxSize b"
  shows "errors (push_error b e) = drop (Suc (length (errors b)) - maxSize b) (errors b @ [e])"
proof (cases "length (errors b) \<ge> maxSize b")
  case True
  with assms have len: "length (errors b) = maxSize b" by simp
  with assms obtain x xs where xs: "errors b = x # xs" by (cases "errors b") auto
  from True len xs show ?thesis by (simp add: push_error_def Let_def Suc_diff_le)
next
  case False
  then show ?thesis by (simp add: push_error_def Let_def)
qed

lemma fold_push_error:
  "0 < maxSize b \<Longrightarrow> length (errors b) \<le> maxSize b \<Longrightarrow>
     errors (fold (\<lambda>e b. push_error b e) xs b) =
       drop (length (errors b @ xs) - maxSize b) (errors b @ xs) \<and>
     maxSize (fold (\<lambda>e b. push_error b e) xs b) = maxSize b"
proof (induction xs arbitrary: b)
  case Nil
  then show ?case by simp
next
  case (Cons x xs)
  let ?b = "push_error b x"
  have m: "maxSize ?b = maxSize b" by (rule push_error_maxSize)
  have l: "length (errors ?b) \<le> maxSize ?b"
    using push_error_length [OF Cons.prems] m by simp
  have p: "0 < maxSize ?b" using Cons.prems m by simp
  from Cons.IH [OF p l] m
  have ih: "errors (fold (\<lambda>e b. push_error b e) xs ?b) =
       drop (length (errors ?b @ xs) - maxSize b) (errors ?b @ xs)"
    and ms: "maxSize (fold (\<lambda>e b. push_error b e) xs ?b) = maxSize b" by simp_all
  define d where "d = Suc (length (errors b)) - maxSize b"
  define L where "L = errors b @ x # xs"
  have e: "errors ?b = drop d (errors b @ [x])"
    unfolding d_def by (rule push_error_drop [OF Cons.prems])
  have d_le: "d \<le> Suc (length (errors b))" unfolding d_def by simp
  have "drop d (errors b @ [x]) @ xs = drop d ((errors b @ [x]) @ xs)"
    by (rule drop_append_within) (use d_le in simp)
  then have app: "errors ?b @ xs = drop d L"
    unfolding e L_def by simp
  have arith: "length (drop d L) - maxSize b + d = length L - maxSize b"
    using Cons.prems unfolding d_def L_def by simp
  have "drop (length (errors ?b @ xs) - maxSize b) (errors ?b @ xs) =
        drop (length L - maxSize b) L"
    unfolding app drop_drop arith ..
  then have "drop (length (errors ?b @ xs) - maxSize b) (errors ?b @ xs) =
        drop (length (errors b @ x # xs) - maxSize b) (errors b @ x # xs)"
    unfolding L_def .
  with ih ms show ?case by simp
qed


lemma push_debug_length:
  "length msgs \<le> MAX_DEBUG_MESSAGES \<Longrightarrow> length (push_debug msgs m) \<le> MAX_DEBUG_MESSAGES"
  by (auto simp: push_debug_def Let_def MAX_DEBUG_MESSAGES_def)

lemma push_debug_drop:
  assumes "length msgs \<le> MAX_DEBUG_MESSAGES"
  shows "push_debug msgs m = drop (Suc (length msgs) - MAX_DEBUG_MESSAGES) (msgs @ [m])"
proof (cases "length msgs = MAX_DEBUG_MESSAGES")
  case True
  then obtain x xs where xs: "msgs = x # xs"
    by (cases msgs) (auto simp: MAX_DEBUG_MESSAGES_def)
  from True xs show ?thesis by (simp add: push_debug_def Let_def Suc_diff_le)
next
  case False
  with assms have "length msgs < MAX_DEBUG_MESSAGES" by simp
  then show ?thesis by (simp add: push_debug_def Let_def)
qed

lemma fold_push_debug:
  "length msgs \<le> MAX_DEBUG_MESSAGES \<Longrightarrow>
     fold (\<lambda>m b. push_debug b m) ys msgs =
       drop (length (msgs @ ys) - MAX_DEBUG_MESSAGES) (msgs @ ys)"
proof (induction ys arbitrary: msgs)
  case Nil
  then show ?case by simp
next
  case (Cons y ys)
  let ?b = "push_debug msgs y"
  have l: "length ?b \<le> MAX_DEBUG_MESSAGES" by (rule push_debug_length [OF Cons.prems])
  define d where "d = Suc (length msgs) - MAX_DEBUG_MESSAGES"
  define L where "L = msgs @ y # ys"
  have e: "?b = drop d (msgs @ [y])"
    unfolding d_def by (rule push_debug_drop [OF Cons.prems])
  have d_le: "d \<le> Suc (length msgs)" unfolding d_def by simp
  have "drop d (msgs @ [y]) @ ys = drop d ((msgs @ [y]) @ ys)"
    by (rule drop_append_within) (use d_le in simp)
  then have app: "?b @ ys = drop d L"
    unfolding e L_def by simp
  have arith: "length (drop d L) - MAX_DEBUG_MESSAGES + d = length L - MAX_DEBUG_MESSAGES"
    using Cons.prems unfolding d_def L_def by (simp add: MAX_DEBUG_MESSAGES_def)
  have "drop (length (?b @ ys) - MAX_DEBUG_MESSAGES) (?b @ ys) =
        drop (length L - MAX_DEBUG_MESSAGES) L"
    unfolding app drop_drop arith ..
  with Cons.IH [OF l] show ?case unfolding L_def by simp
qed


lemma parseAndStoreError_bound:
  assumes "0 < maxSize buf" "length (errors buf) \<le> maxSize buf"
  shows "length (errors (fst (parseAndStoreError now raw buf p))) \<le> maxSize buf"
  using assms push_error_length [OF assms]
  by (simp add: parseAndStoreError_def Let_def split: option.splits)

lemma on_stdout_line_bound:
  assumes "length (debugMessages p) \<le> MAX_DEBUG_MESSAGES"
  shows "length (debugMessages (on_stdout_line now raw p)) \<le> MAX_DEBUG_MESSAGES \<and>
         runtimeErrors (on_stdout_line now raw p) = runtimeErrors p"
  using assms push_debug_length [OF assms]
  by (simp add: on_stdout_line_def Let_def)

lemma parseAndStoreError_maxSize: "maxSize (fst (parseAndStoreError now raw buf p)) = maxSize buf"
  by (simp add: parseAndStoreError_def Let_def push_error_maxSize split: option.splits)

lemma on_stderr_line_bound:
  assumes "0 < maxSize (runtimeErrors p)"
    "length (errors (runtimeErrors p)) \<le> maxSize (runtimeErrors p)"
    "length (debugMessages p) \<le> MAX_DEBUG_MESSAGES"
  shows "length (debugMessages (on_stderr_line now raw p)) \<le> MAX_DEBUG_MESSAGES \<and>
         length (errors (runtimeErrors (on_stderr_line now raw p))) \<le> maxSize (runtimeErrors p) \<and>
         maxSize (runtimeErrors (on_stderr_line now raw p)) = maxSize (runtimeErrors p)"
  using assms push_debug_length [OF assms(3)] parseAndStoreError_bound [OF assms(1,2)]
  by (simp add: on_stderr_line_def Let_def parseAndStoreError_maxSize)

lemma drop_last_part: "length A \<le> C \<Longrightarrow> C < length xs \<Longrightarrow>
    drop (length (A @ xs) - C) (A @ xs) = drop (length xs - C) xs"
  by simp

subsection \<open>What a line of output inserts\<close>

text \<open>The debug message that a line of output inserts: none for a blank line, the
  trimmed text as a \<open>print\<close> message for a line of stdout, the message of
  \<open>parseStderrLine\<close> for a line of stderr.\<close>

definition debug_item :: "output_line \<Rightarrow> DebugMessage list" where
  "debug_item ev =
     (case ev of
        Stdout now raw \<Rightarrow>
          if trim raw = [] then []
          else [\<lparr> dm_timestamp = now, category = CatPrint, dm_message = trim raw,
                   dm_source = ''stdout'' \<rparr>]
      | Stderr now raw \<Rightarrow> if trim raw = [] then [] else [parseStderrLine now raw])"

definition debug_items :: "output_line list \<Rightarrow> DebugMessage list" where
  "debug_items evs = concat (map debug_item evs)"

text \<open>The runtime error that a call of \<open>parseAndStoreError\<close> inserts: none unless a
  line is pending that matches \<open>errorStart\<close>; then the error of the pending line, with
  the location of the new line when that matches \<open>atLine\<close> or \<open>atLineAlt\<close> and without
  a location otherwise.\<close>

definition inserted_error :: "real \<Rightarrow> string \<Rightarrow> string option \<Rightarrow> RuntimeError list" where
  "inserted_error now raw pendingLine =
     (case pendingLine of
        None \<Rightarrow> []
      | Some pl \<Rightarrow>
          if trim raw = [] \<or> pl = [] then []
          else
            (case str_match pl errorStart of
               None \<Rightarrow> []
             | Some em \<Rightarrow>
                 (case str_match (trim raw) atLine of
                    Some am \<Rightarrow> [located_error now em am]
                  | None \<Rightarrow>
                      (case str_match (trim raw) atLineAlt of
                         Some am \<Rightarrow> [located_error now em am]
                       | None \<Rightarrow> [unlocated_error now em]))))"

text \<open>The pending line that a call of \<open>parseAndStoreError\<close> returns: unchanged for
  a blank line, none after a located error, and otherwise the trimmed line when it
  matches \<open>errorStart\<close>.\<close>

definition pending_after :: "string \<Rightarrow> string option \<Rightarrow> string option" where
  "pending_after raw pendingLine =
     (let trimmedLine = trim raw;
          located =
            (case pendingLine of
               None \<Rightarrow> False
             | Some pl \<Rightarrow>
                 pl \<noteq> [] \<and> str_match pl errorStart \<noteq> None \<and>
                 (str_match trimmedLine atLine \<noteq> None \<or>
                  str_match trimmedLine atLineAlt \<noteq> None))
      in if trimmedLine = [] then pendingLine
         else if located then None
         else if str_match trimmedLine errorStart \<noteq> None then Some trimmedLine
         else None)"

text \<open>The runtime errors that a sequence of output lines inserts, in order, when
  \<open>pl\<close> is the pending line at its start.\<close>

fun error_items :: "output_line list \<Rightarrow> string option \<Rightarrow> RuntimeError list" where
  "error_items [] pl = []"
| "error_items (Stdout now raw # evs) pl = error_items evs pl"
| "error_items (Stderr now raw # evs) pl =
     inserted_error now raw pl @ error_items evs (pending_after raw pl)"

lemma parseAndStoreError_inserted:
  "fst (parseAndStoreError now raw b pl) = fold (\<lambda>e b. push_error b e) (inserted_error now raw pl) b"
  by (auto simp: parseAndStoreError_def inserted_error_def Let_def split: option.splits)

lemma parseAndStoreError_pending:
  "snd (parseAndStoreError now raw b pl) = pending_after raw pl"
  by (auto simp: parseAndStoreError_def pending_after_def Let_def split: option.splits)

lemma inserted_error_blank: "trim raw = [] \<Longrightarrow> inserted_error now raw pl = []"
  by (simp add: inserted_error_def split: option.splits)

lemma pending_after_blank: "trim raw = [] \<Longrightarrow> pending_after raw pl = pl"
  by (simp add: pending_after_def Let_def)

lemma on_output_line_Stdout:
  "on_output_line (Stdout now raw) p =
     p\<lparr> debugMessages := fold (\<lambda>m b. push_debug b m) (debug_item (Stdout now raw)) (debugMessages p) \<rparr>"
  by (simp add: on_output_line_def on_stdout_line_def debug_item_def Let_def)

lemma on_output_line_Stderr:
  "on_output_line (Stderr now raw) p =
     \<lparr> runtimeErrors = fold (\<lambda>e b. push_error b e) (inserted_error now raw (pendingErrorLine p))
                          (runtimeErrors p),
       pendingErrorLine = pending_after raw (pendingErrorLine p),
       debugMessages = fold (\<lambda>m b. push_debug b m) (debug_item (Stderr now raw)) (debugMessages p) \<rparr>"
proof (cases "trim raw = []")
  case True
  then show ?thesis
    by (simp add: on_output_line_def on_stderr_line_def debug_item_def inserted_error_blank
        pending_after_blank)
next
  case False
  have "parseAndStoreError now raw (runtimeErrors p) (pendingErrorLine p) =
     (fold (\<lambda>e b. push_error b e) (inserted_error now raw (pendingErrorLine p)) (runtimeErrors p),
      pending_after raw (pendingErrorLine p))"
    by (simp add: prod_eq_iff parseAndStoreError_inserted parseAndStoreError_pending)
  with False show ?thesis
    by (simp add: on_output_line_def on_stderr_line_def debug_item_def Let_def)
qed

lemma output_run:
  "runtimeErrors (fold on_output_line evs p) =
     fold (\<lambda>e b. push_error b e) (error_items evs (pendingErrorLine p)) (runtimeErrors p) \<and>
   debugMessages (fold on_output_line evs p) =
     fold (\<lambda>m b. push_debug b m) (debug_items evs) (debugMessages p)"
proof (induction evs arbitrary: p)
  case Nil
  show ?case by (simp add: debug_items_def)
next
  case (Cons ev evs)
  show ?case
  proof (cases ev)
    case (Stdout now raw)
    show ?thesis
      using Cons.IH [of "on_output_line (Stdout now raw) p"]
      unfolding Stdout
      by (simp add: on_output_line_Stdout debug_items_def)
  next
    case (Stderr now raw)
    show ?thesis
      using Cons.IH [of "on_output_line (Stderr now raw) p"]
      unfolding Stderr
      by (simp add: on_output_line_Stderr debug_items_def)
  qed
qed

subsection \<open>The buffers keep the newest entries\<close>

text \<open>
  C2. Take the buffers of a process whose runtime-error buffer has a capacity
  \<open>maxSize\<close> of at least 1 and a length within it, and whose debug-message buffer is
  within its limit of 500 (the buffers of a new process are empty, with capacity 100
  for runtime errors). Let any sequence of lines of output be handled by the stdout
  and the stderr handler. Afterwards the runtime-error buffer holds the errors it
  held before followed by the errors the lines inserted, in that order, cut down from
  the front to the capacity; the debug-message buffer likewise, with the limit 500.
  So neither buffer is ever longer than its capacity, and once more entries have been
  inserted than the capacity, the buffer holds exactly as many entries as the
  capacity: the most recently inserted ones, in insertion order. The same is stated
  for one call of \<open>parseAndStoreError\<close>, for one line taken by a handler, and for the
  two insertion fragments applied to any list of entries.
\<close>

theorem C2_fifo_buffers_keep_newest:
  assumes "0 < maxSize (runtimeErrors p)"
    and "length (errors (runtimeErrors p)) \<le> maxSize (runtimeErrors p)"
    and "length (debugMessages p) \<le> MAX_DEBUG_MESSAGES"
  shows
    "errors (runtimeErrors (fold on_output_line evs p)) =
       drop (length (errors (runtimeErrors p) @ error_items evs (pendingErrorLine p))
               - maxSize (runtimeErrors p))
            (errors (runtimeErrors p) @ error_items evs (pendingErrorLine p)) \<and>
     maxSize (runtimeErrors (fold on_output_line evs p)) = maxSize (runtimeErrors p) \<and>
     length (errors (runtimeErrors (fold on_output_line evs p))) \<le> maxSize (runtimeErrors p) \<and>
     (maxSize (runtimeErrors p) < length (error_items evs (pendingErrorLine p)) \<longrightarrow>
        errors (runtimeErrors (fold on_output_line evs p)) =
          drop (length (error_items evs (pendingErrorLine p)) - maxSize (runtimeErrors p))
               (error_items evs (pendingErrorLine p)) \<and>
        length (errors (runtimeErrors (fold on_output_line evs p))) = maxSize (runtimeErrors p)) \<and>
     debugMessages (fold on_output_line evs p) =
       drop (length (debugMessages p @ debug_items evs) - MAX_DEBUG_MESSAGES)
            (debugMessages p @ debug_items evs) \<and>
     length (debugMessages (fold on_output_line evs p)) \<le> MAX_DEBUG_MESSAGES \<and>
     (MAX_DEBUG_MESSAGES < length (debug_items evs) \<longrightarrow>
        debugMessages (fold on_output_line evs p) =
          drop (length (debug_items evs) - MAX_DEBUG_MESSAGES) (debug_items evs) \<and>
        length (debugMessages (fold on_output_line evs p)) = MAX_DEBUG_MESSAGES) \<and>
     errors (fst (parseAndStoreError now raw (runtimeErrors p) pl)) =
       drop (length (errors (runtimeErrors p) @ inserted_error now raw pl)
               - maxSize (runtimeErrors p))
            (errors (runtimeErrors p) @ inserted_error now raw pl) \<and>
     length (errors (fst (parseAndStoreError now raw (runtimeErrors p) pl)))
       \<le> maxSize (runtimeErrors p) \<and>
     length (errors (runtimeErrors (on_stderr_line now raw p))) \<le> maxSize (runtimeErrors p) \<and>
     length (debugMessages (on_stderr_line now raw p)) \<le> MAX_DEBUG_MESSAGES \<and>
     length (debugMessages (on_stdout_line now raw p)) \<le> MAX_DEBUG_MESSAGES \<and>
     length (errors (fold (\<lambda>e b. push_error b e) xs (runtimeErrors p)))
       \<le> maxSize (runtimeErrors p) \<and>
     maxSize (fold (\<lambda>e b. push_error b e) xs (runtimeErrors p)) = maxSize (runtimeErrors p) \<and>
     (maxSize (runtimeErrors p) < length xs \<longrightarrow>
        errors (fold (\<lambda>e b. push_error b e) xs (runtimeErrors p)) =
          drop (length xs - maxSize (runtimeErrors p)) xs \<and>
        length (errors (fold (\<lambda>e b. push_error b e) xs (runtimeErrors p))) =
          maxSize (runtimeErrors p)) \<and>
     length (fold (\<lambda>m b. push_debug b m) ys (debugMessages p)) \<le> MAX_DEBUG_MESSAGES \<and>
     (MAX_DEBUG_MESSAGES < length ys \<longrightarrow>
        fold (\<lambda>m b. push_debug b m) ys (debugMessages p) =
          drop (length ys - MAX_DEBUG_MESSAGES) ys \<and>
        length (fold (\<lambda>m b. push_debug b m) ys (debugMessages p)) = MAX_DEBUG_MESSAGES) \<and>
     new_process_buffers =
       \<lparr> runtimeErrors = \<lparr> errors = [], maxSize = 100 \<rparr>, pendingErrorLine = None,
         debugMessages = [] \<rparr> \<and>
     MAX_DEBUG_MESSAGES = 500"
proof -
  define b where "b = runtimeErrors p"
  define msgs where "msgs = debugMessages p"
  define C where "C = maxSize b"
  define es where "es = error_items evs (pendingErrorLine p)"
  define ds where "ds = debug_items evs"
  define q where "q = fold on_output_line evs p"
  have a: "0 < maxSize b" "length (errors b) \<le> maxSize b" "length msgs \<le> MAX_DEBUG_MESSAGES"
    using assms by (simp_all add: b_def msgs_def)
  have fe: "errors (fold (\<lambda>e b. push_error b e) zs b) =
              drop (length (errors b @ zs) - C) (errors b @ zs)"
    and fm: "maxSize (fold (\<lambda>e b. push_error b e) zs b) = C" for zs
    using fold_push_error [OF a(1,2), of zs] by (simp_all add: C_def)
  have fd: "fold (\<lambda>m b. push_debug b m) zs msgs =
              drop (length (msgs @ zs) - MAX_DEBUG_MESSAGES) (msgs @ zs)" for zs
    by (rule fold_push_debug [OF a(3)])
  have le: "length (errors (fold (\<lambda>e b. push_error b e) zs b)) \<le> C" for zs
    using a(2) by (simp add: fe C_def)
  have ld: "length (fold (\<lambda>m b. push_debug b m) zs msgs) \<le> MAX_DEBUG_MESSAGES" for zs
    using a(3) by (simp add: fd)
  have me: "C < length zs \<longrightarrow>
        errors (fold (\<lambda>e b. push_error b e) zs b) = drop (length zs - C) zs \<and>
        length (errors (fold (\<lambda>e b. push_error b e) zs b)) = C" for zs
  proof
    assume more: "C < length zs"
    have "errors (fold (\<lambda>e b. push_error b e) zs b) = drop (length zs - C) zs"
      unfolding fe using drop_last_part [of "errors b" C zs] a(2) more by (simp add: C_def)
    then show "errors (fold (\<lambda>e b. push_error b e) zs b) = drop (length zs - C) zs \<and>
        length (errors (fold (\<lambda>e b. push_error b e) zs b)) = C"
      using more by simp
  qed
  have md: "MAX_DEBUG_MESSAGES < length zs \<longrightarrow>
        fold (\<lambda>m b. push_debug b m) zs msgs = drop (length zs - MAX_DEBUG_MESSAGES) zs \<and>
        length (fold (\<lambda>m b. push_debug b m) zs msgs) = MAX_DEBUG_MESSAGES" for zs
  proof
    assume more: "MAX_DEBUG_MESSAGES < length zs"
    have "fold (\<lambda>m b. push_debug b m) zs msgs = drop (length zs - MAX_DEBUG_MESSAGES) zs"
      unfolding fd using drop_last_part [OF a(3) more] by simp
    then show "fold (\<lambda>m b. push_debug b m) zs msgs = drop (length zs - MAX_DEBUG_MESSAGES) zs \<and>
        length (fold (\<lambda>m b. push_debug b m) zs msgs) = MAX_DEBUG_MESSAGES"
      using more by simp
  qed
  have re: "runtimeErrors q = fold (\<lambda>e b. push_error b e) es b"
    and rd: "debugMessages q = fold (\<lambda>m b. push_debug b m) ds msgs"
    using output_run [of evs p] by (simp_all add: q_def es_def b_def ds_def msgs_def)
  have 1: "errors (runtimeErrors q) = drop (length (errors b @ es) - C) (errors b @ es)"
    unfolding re by (rule fe)
  have 2: "maxSize (runtimeErrors q) = C" unfolding re by (rule fm)
  have 3: "length (errors (runtimeErrors q)) \<le> C" unfolding re by (rule le)
  have 4: "C < length es \<longrightarrow>
        errors (runtimeErrors q) = drop (length es - C) es \<and>
        length (errors (runtimeErrors q)) = C"
    unfolding re by (rule me)
  have 5: "debugMessages q =
       drop (length (msgs @ ds) - MAX_DEBUG_MESSAGES) (msgs @ ds)"
    unfolding rd by (rule fd)
  have 6: "length (debugMessages q) \<le> MAX_DEBUG_MESSAGES" unfolding rd by (rule ld)
  have 7: "MAX_DEBUG_MESSAGES < length ds \<longrightarrow>
        debugMessages q = drop (length ds - MAX_DEBUG_MESSAGES) ds \<and>
        length (debugMessages q) = MAX_DEBUG_MESSAGES"
    unfolding rd by (rule md)
  have 8: "errors (fst (parseAndStoreError now raw b pl)) =
       drop (length (errors b @ inserted_error now raw pl) - C) (errors b @ inserted_error now raw pl)"
    unfolding parseAndStoreError_inserted by (rule fe)
  have 9: "length (errors (fst (parseAndStoreError now raw b pl))) \<le> C"
    unfolding parseAndStoreError_inserted by (rule le)
  have pa: "0 < maxSize (runtimeErrors p)"
    "length (errors (runtimeErrors p)) \<le> maxSize (runtimeErrors p)"
    "length (debugMessages p) \<le> MAX_DEBUG_MESSAGES"
    using assms by simp_all
  have 10: "length (errors (runtimeErrors (on_stderr_line now raw p))) \<le> C"
    and 11: "length (debugMessages (on_stderr_line now raw p)) \<le> MAX_DEBUG_MESSAGES"
    using on_stderr_line_bound [OF pa, of now raw] by (simp_all add: C_def b_def)
  have 12: "length (debugMessages (on_stdout_line now raw p)) \<le> MAX_DEBUG_MESSAGES"
    using on_stdout_line_bound [OF pa(3), of now raw] by simp
  have 13: "new_process_buffers =
       \<lparr> runtimeErrors = \<lparr> errors = [], maxSize = 100 \<rparr>, pendingErrorLine = None,
         debugMessages = [] \<rparr>"
    by (simp add: new_process_buffers_def new_error_buffer_def MAX_RUNTIME_ERRORS_def)
  have 14: "MAX_DEBUG_MESSAGES = 500" by (simp add: MAX_DEBUG_MESSAGES_def)
  from 1 2 3 4 5 6 7 8 9 10 11 12 le [of xs] fm [of xs] me [of xs] ld [of ys] md [of ys] 13 14
  show ?thesis
    unfolding q_def es_def ds_def C_def b_def msgs_def by (intro conjI)
qed

definition boom_line :: string where
  "boom_line = ''ERROR: boom''"

definition boom_error :: "real \<Rightarrow> RuntimeError" where
  "boom_error t = \<lparr> err_timestamp = t, err_type = TypeError, err_message = ''boom'',
     err_script = [], err_line = 0, err_function = None \<rparr>"

definition hello_message :: "real \<Rightarrow> DebugMessage" where
  "hello_message t = \<lparr> dm_timestamp = t, category = CatPrint, dm_message = ''hello'',
     dm_source = ''stdout'' \<rparr>"

definition boom_lines :: "output_line list" where
  "boom_lines = map (\<lambda>n. Stderr (real n) boom_line) [0..<102]"

definition hello_lines :: "output_line list" where
  "hello_lines = map (\<lambda>n. Stdout (real n) ''  hello'') [0..<502]"

lemma boom_line_facts:
  "trim boom_line = boom_line"
  "str_match boom_line errorStart = Some [(0, ''ERROR: boom''), (2, ''boom''), (1, ''ERROR'')]"
  "str_match boom_line atLine = None"
  "str_match boom_line atLineAlt = None"
  "boom_line \<noteq> []"
  unfolding boom_line_def by code_simp+

lemma boom_line_type: "error_type_of ''ERROR'' = TypeError"
  by code_simp

lemma boom_line_inserted:
  "inserted_error t boom_line None = []"
  "inserted_error t boom_line (Some boom_line) = [boom_error t]"
  "pending_after boom_line None = Some boom_line"
  "pending_after boom_line (Some boom_line) = Some boom_line"
  by (simp_all add: inserted_error_def pending_after_def parseAndStoreError_def Let_def
      boom_line_facts unlocated_error_def boom_error_def group_def boom_line_type)

lemma boom_lines_items:
  "error_items (map (\<lambda>n. Stderr (f n) boom_line) ns) (Some boom_line) =
     map (\<lambda>n. boom_error (f n)) ns"
  by (induction ns) (simp_all add: boom_line_inserted)

lemma boom_lines_errors:
  "error_items boom_lines None = map (\<lambda>n. boom_error (real n)) [1..<102]"
proof -
  have "[0..<102] = 0 # [1..<102]" by (simp add: upt_conv_Cons)
  then have bl: "boom_lines = Stderr (real 0) boom_line # map (\<lambda>n. Stderr (real n) boom_line) [1..<102]"
    unfolding boom_lines_def by (simp only: list.map)
  have "error_items (Stderr t boom_line # rest) None = error_items rest (Some boom_line)" for t rest
    by (simp add: boom_line_inserted)
  then show ?thesis unfolding bl by (simp only: boom_lines_items)
qed

lemma trim_hello: "trim ''  hello'' = ''hello''"
  by code_simp

lemma hello_lines_items:
  "debug_items (map (\<lambda>n. Stdout (f n) ''  hello'') ns) = map (\<lambda>n. hello_message (f n)) ns"
  by (induction ns) (simp_all add: debug_items_def debug_item_def trim_hello hello_message_def)

lemma hello_lines_messages:
  "debug_items hello_lines = map (\<lambda>n. hello_message (real n)) [0..<502]"
  unfolding hello_lines_def by (rule hello_lines_items)

lemma drop_map_upt: "a + k = c \<Longrightarrow> drop k (map g [a..<b]) = map g [c..<b]"
  by (auto simp: drop_map)

theorem C2_witness:
  "0 < maxSize (runtimeErrors new_process_buffers) \<and>
   length (errors (runtimeErrors new_process_buffers)) \<le> maxSize (runtimeErrors new_process_buffers) \<and>
   length (debugMessages new_process_buffers) \<le> MAX_DEBUG_MESSAGES \<and>
   maxSize (runtimeErrors new_process_buffers) < length (error_items boom_lines None) \<and>
   errors (runtimeErrors (fold on_output_line boom_lines new_process_buffers)) =
     map (\<lambda>n. boom_error (real n)) [2..<102] \<and>
   length (errors (runtimeErrors (fold on_output_line boom_lines new_process_buffers))) = 100 \<and>
   MAX_DEBUG_MESSAGES < length (debug_items hello_lines) \<and>
   debugMessages (fold on_output_line hello_lines new_process_buffers) =
     map (\<lambda>n. hello_message (real n)) [2..<502] \<and>
   length (debugMessages (fold on_output_line hello_lines new_process_buffers)) = 500 \<and>
   errors (fold (\<lambda>e b. push_error b e) (error_items boom_lines None)
             (runtimeErrors new_process_buffers)) =
     map (\<lambda>n. boom_error (real n)) [2..<102] \<and>
   fold (\<lambda>m b. push_debug b m) (debug_items hello_lines) (debugMessages new_process_buffers) =
     map (\<lambda>n. hello_message (real n)) [2..<502]"
proof -
  have n: "maxSize (runtimeErrors new_process_buffers) = 100"
    "errors (runtimeErrors new_process_buffers) = []"
    "debugMessages new_process_buffers = []" "pendingErrorLine new_process_buffers = None"
    "MAX_DEBUG_MESSAGES = 500"
    by (simp_all add: new_process_buffers_def new_error_buffer_def MAX_RUNTIME_ERRORS_def
        MAX_DEBUG_MESSAGES_def)
  have a: "0 < maxSize (runtimeErrors new_process_buffers)"
    "length (errors (runtimeErrors new_process_buffers)) \<le> maxSize (runtimeErrors new_process_buffers)"
    "length (debugMessages new_process_buffers) \<le> MAX_DEBUG_MESSAGES"
    by (simp_all add: n)
  have le: "length (error_items boom_lines None) = 101"
    by (simp only: boom_lines_errors length_map length_upt)
  have ld: "length (debug_items hello_lines) = 502"
    by (simp only: hello_lines_messages length_map length_upt)
  have more: "maxSize (runtimeErrors new_process_buffers) < length (error_items boom_lines None)"
    "MAX_DEBUG_MESSAGES < length (debug_items hello_lines)"
    by (simp_all only: n le ld)
  have de: "drop (length (error_items boom_lines None) - 100) (error_items boom_lines None) =
      map (\<lambda>n. boom_error (real n)) [2..<102]"
    unfolding le unfolding boom_lines_errors by (rule drop_map_upt) simp
  have dd: "drop (length (debug_items hello_lines) - 500) (debug_items hello_lines) =
      map (\<lambda>n. hello_message (real n)) [2..<502]"
    unfolding ld unfolding hello_lines_messages by (rule drop_map_upt) simp
  note e = C2_fifo_buffers_keep_newest [OF a, where evs = boom_lines and now = 0 and raw = "[]"
      and pl = None and xs = "error_items boom_lines None" and ys = "debug_items hello_lines"]
  note d = C2_fifo_buffers_keep_newest [OF a, where evs = hello_lines and now = 0 and raw = "[]"
      and pl = None and xs = "[]" and ys = "[]"]
  note e4 = e [THEN conjunct2, THEN conjunct2, THEN conjunct2, THEN conjunct1, unfolded n(4)]
  note d7 = d [THEN conjunct2, THEN conjunct2, THEN conjunct2, THEN conjunct2, THEN conjunct2,
      THEN conjunct2, THEN conjunct1]
  from e4 more(1) have
    "errors (runtimeErrors (fold on_output_line boom_lines new_process_buffers)) =
          drop (length (error_items boom_lines None) - maxSize (runtimeErrors new_process_buffers))
               (error_items boom_lines None)"
    and el: "length (errors (runtimeErrors (fold on_output_line boom_lines new_process_buffers))) =
      maxSize (runtimeErrors new_process_buffers)"
    by blast+
  then have 1: "errors (runtimeErrors (fold on_output_line boom_lines new_process_buffers)) =
     map (\<lambda>n. boom_error (real n)) [2..<102]"
    by (simp only: n de)
  from d7 more(2) have
    "debugMessages (fold on_output_line hello_lines new_process_buffers) =
          drop (length (debug_items hello_lines) - MAX_DEBUG_MESSAGES) (debug_items hello_lines)"
    and dl: "length (debugMessages (fold on_output_line hello_lines new_process_buffers)) =
      MAX_DEBUG_MESSAGES"
    by blast+
  then have 2: "debugMessages (fold on_output_line hello_lines new_process_buffers) =
     map (\<lambda>n. hello_message (real n)) [2..<502]"
    by (simp only: n dd)
  from e have "maxSize (runtimeErrors new_process_buffers) < length (error_items boom_lines None) \<longrightarrow>
        errors (fold (\<lambda>e b. push_error b e) (error_items boom_lines None)
                  (runtimeErrors new_process_buffers)) =
          drop (length (error_items boom_lines None) - maxSize (runtimeErrors new_process_buffers))
               (error_items boom_lines None) \<and>
        length (errors (fold (\<lambda>e b. push_error b e) (error_items boom_lines None)
                  (runtimeErrors new_process_buffers))) =
          maxSize (runtimeErrors new_process_buffers)"
    by blast
  with more(1) have "errors (fold (\<lambda>e b. push_error b e) (error_items boom_lines None)
                  (runtimeErrors new_process_buffers)) =
          drop (length (error_items boom_lines None) - maxSize (runtimeErrors new_process_buffers))
               (error_items boom_lines None)"
    by blast
  then have 3: "errors (fold (\<lambda>e b. push_error b e) (error_items boom_lines None)
             (runtimeErrors new_process_buffers)) =
     map (\<lambda>n. boom_error (real n)) [2..<102]"
    by (simp only: n de)
  from e have "MAX_DEBUG_MESSAGES < length (debug_items hello_lines) \<longrightarrow>
        fold (\<lambda>m b. push_debug b m) (debug_items hello_lines) (debugMessages new_process_buffers) =
          drop (length (debug_items hello_lines) - MAX_DEBUG_MESSAGES) (debug_items hello_lines) \<and>
        length (fold (\<lambda>m b. push_debug b m) (debug_items hello_lines)
                  (debugMessages new_process_buffers)) = MAX_DEBUG_MESSAGES"
    by blast
  with more(2) have "fold (\<lambda>m b. push_debug b m) (debug_items hello_lines)
          (debugMessages new_process_buffers) =
          drop (length (debug_items hello_lines) - MAX_DEBUG_MESSAGES) (debug_items hello_lines)"
    by blast
  then have 4: "fold (\<lambda>m b. push_debug b m) (debug_items hello_lines)
        (debugMessages new_process_buffers) =
     map (\<lambda>n. hello_message (real n)) [2..<502]"
    by (simp only: n dd)
  from a more 1 el [unfolded n(1)] 2 dl [unfolded n(5)] 3 4 show ?thesis by (intro conjI)
qed


subsection \<open>The two-line error grammar\<close>

definition error_line :: string where
  "error_line = ''ERROR: Parse Error: unexpected token''"

definition at_line :: string where
  "at_line = ''   at: GDScript::reload (res://a.gd:4)''"

lemma trim_error_line: "trim error_line = error_line"
  unfolding error_line_def by code_simp

lemma trim_at_line: "trim at_line = ''at: GDScript::reload (res://a.gd:4)''"
  unfolding at_line_def by code_simp

lemma error_line_start:
  "str_match error_line errorStart =
     Some [(0, ''ERROR: Parse Error: unexpected token''),
           (2, ''Parse Error: unexpected token''), (1, ''ERROR'')]"
  unfolding error_line_def by code_simp

lemma at_line_atLine: "str_match ''at: GDScript::reload (res://a.gd:4)'' atLine = None"
  by code_simp

lemma at_line_atLineAlt: "str_match ''at: GDScript::reload (res://a.gd:4)'' atLineAlt = None"
  by code_simp

lemma at_line_start: "str_match ''at: GDScript::reload (res://a.gd:4)'' errorStart = None"
  by code_simp

lemma error_type_ERROR: "error_type_of ''ERROR'' = TypeError"
  by code_simp

lemma first_line_pending:
  "feed_stderr_line (t1, error_line) (new_error_buffer, None) = (new_error_buffer, Some error_line)"
  by (simp add: feed_stderr_line_def parseAndStoreError_def Let_def trim_error_line error_line_start)
     (simp add: error_line_def)

text \<open>
  C3 does not hold of the code. The line \<open>ERROR: Parse Error: unexpected token\<close> and
  then the line \<open>   at: GDScript::reload (res://a.gd:4)\<close> give exactly one runtime
  error of type error, but with an empty script, line 0 and no function: \<open>atLine\<close>
  wants a function name of word characters, and in \<open>atLineAlt\<close> the path may not
  contain a colon, so neither matches a locator that starts with \<open>res://\<close> after a
  function name with \<open>::\<close>.
\<close>

theorem C3_locator_with_res_prefix_is_lost:
  "fold feed_stderr_line [(t1, error_line), (t2, at_line)] (new_error_buffer, None) =
     (\<lparr> errors = [\<lparr> err_timestamp = t2, err_type = TypeError,
                      err_message = ''Parse Error: unexpected token'',
                      err_script = [], err_line = 0, err_function = None \<rparr>],
        maxSize = MAX_RUNTIME_ERRORS \<rparr>, None)"
proof -
  have ne: "error_line \<noteq> []" "''at: GDScript::reload (res://a.gd:4)'' \<noteq> []"
    by (simp_all add: error_line_def)
  have "feed_stderr_line (t2, at_line) (new_error_buffer, Some error_line) =
     (\<lparr> errors = [\<lparr> err_timestamp = t2, err_type = TypeError,
                      err_message = ''Parse Error: unexpected token'',
                      err_script = [], err_line = 0, err_function = None \<rparr>],
        maxSize = MAX_RUNTIME_ERRORS \<rparr>, None)"
    using ne
    by (simp add: feed_stderr_line_def parseAndStoreError_def Let_def trim_at_line
        at_line_atLine at_line_atLineAlt at_line_start error_line_start
        push_error_def unlocated_error_def group_def error_type_ERROR
        new_error_buffer_def MAX_RUNTIME_ERRORS_def)
  then show ?thesis by (simp add: first_line_pending)
qed

lemma plain_function_locator_is_kept:
  "fold feed_stderr_line [(t1, error_line), (t2, ''   at: reload (res://a.gd:4)'')]
     (new_error_buffer, None) =
     (\<lparr> errors = [\<lparr> err_timestamp = t2, err_type = TypeError,
                      err_message = ''Parse Error: unexpected token'',
                      err_script = ''res://a.gd'', err_line = 4,
                      err_function = Some ''reload'' \<rparr>],
        maxSize = MAX_RUNTIME_ERRORS \<rparr>, None)"
proof -
  have ne: "error_line \<noteq> []" by (simp add: error_line_def)
  have t: "trim ''   at: reload (res://a.gd:4)'' = ''at: reload (res://a.gd:4)''"
    by code_simp
  have m: "str_match ''at: reload (res://a.gd:4)'' atLine =
      Some [(0, ''at: reload (res://a.gd:4)''), (3, ''4''), (2, ''a.gd''), (1, ''reload'')]"
    by code_simp
  have p: "parseInt ''4'' = 4" "trim ''reload'' = ''reload''"
    by code_simp+
  have "feed_stderr_line (t2, ''   at: reload (res://a.gd:4)'') (new_error_buffer, Some error_line) =
     (\<lparr> errors = [\<lparr> err_timestamp = t2, err_type = TypeError,
                      err_message = ''Parse Error: unexpected token'',
                      err_script = ''res://a.gd'', err_line = 4,
                      err_function = Some ''reload'' \<rparr>],
        maxSize = MAX_RUNTIME_ERRORS \<rparr>, None)"
    using ne
    by (simp add: feed_stderr_line_def parseAndStoreError_def Let_def t m p error_line_start
        push_error_def located_error_def group_def error_type_ERROR startsWith_def
        new_error_buffer_def MAX_RUNTIME_ERRORS_def)
  then show ?thesis by (simp add: first_line_pending)
qed

section \<open>Properties of the GDScript parser\<close>

subsection \<open>Functions of a parsed script do not overlap\<close>

definition contains_line :: "FunctionInfo \<Rightarrow> int \<Rightarrow> bool" where
  "contains_line f l = (startLine f \<le> l \<and> l \<le> endLine f)"

definition ordered_functions :: "FunctionInfo list \<Rightarrow> bool" where
  "ordered_functions fs = sorted_wrt (\<lambda>f g. endLine f < startLine g) fs"

definition parameter_variable :: "int \<Rightarrow> string \<Rightarrow> VariableInfo" where
  "parameter_variable l p =
     \<lparr> var_name = p, var_type = None, var_line = l, var_scope = ScopeParameter \<rparr>"

definition params_mirrored :: "FunctionInfo \<Rightarrow> bool" where
  "params_mirrored f =
     (\<forall>p \<in> set (parameters f). parameter_variable (startLine f) p \<in> set (localVariables f))"

definition parser_inv :: "nat \<Rightarrow> parser_state \<Rightarrow> bool" where
  "parser_inv n st =
     (ordered_functions (ps_functions st) \<and>
      (\<forall>g \<in> set (ps_functions st). endLine g < int n \<and> params_mirrored g) \<and>
      (case currentFunction st of
         None \<Rightarrow> True
       | Some f \<Rightarrow> startLine f \<le> int n \<and> params_mirrored f \<and>
           (\<forall>g \<in> set (ps_functions st). endLine g < startLine f)))"

lemma ordered_functions_snoc:
  "ordered_functions (fs @ [f]) =
     (ordered_functions fs \<and> (\<forall>g \<in> set fs. endLine g < startLine f))"
  by (simp add: ordered_functions_def sorted_wrt_append)

lemma params_mirrored_endLine: "params_mirrored (f\<lparr> endLine := e \<rparr>) = params_mirrored f"
  by (simp add: params_mirrored_def)

lemma params_mirrored_add:
  "params_mirrored f \<Longrightarrow> params_mirrored (f\<lparr> localVariables := localVariables f @ [v] \<rparr>)"
  by (simp add: params_mirrored_def)

lemma parser_inv_mono: "parser_inv n st \<Longrightarrow> n \<le> m \<Longrightarrow> parser_inv m st"
  by (fastforce simp: parser_inv_def split: option.splits)

lemma exit_function_inv:
  assumes "parser_inv i st"
  shows "parser_inv (Suc i) (exit_function i raw st)"
proof (cases "currentFunction st")
  case None
  then have "exit_function i raw st = st" by (simp add: exit_function_def Let_def)
  with parser_inv_mono [OF assms, of "Suc i"] show ?thesis by simp
next
  case (Some f)
  show ?thesis
  proof (cases "exit_function i raw st = st")
    case True
    with parser_inv_mono [OF assms, of "Suc i"] show ?thesis by simp
  next
    case False
    with Some have eq: "exit_function i raw st =
        st\<lparr> ps_functions := ps_functions st @ [f\<lparr> endLine := int i \<rparr>], currentFunction := None \<rparr>"
      by (simp add: exit_function_def Let_def split: if_splits)
    from assms Some show ?thesis
      unfolding eq parser_inv_def
      by (auto simp: ordered_functions_snoc params_mirrored_endLine)
  qed
qed

lemma start_function_inv:
  assumes "parser_inv (Suc i) st"
  shows "parser_inv (Suc i) (start_function i raw m st)"
proof -
  define st1 where "st1 = (case currentFunction st of
                   None \<Rightarrow> st
                 | Some f \<Rightarrow> st\<lparr> ps_functions := ps_functions st @ [f\<lparr> endLine := int i \<rparr>] \<rparr>)"
  have o: "ordered_functions (ps_functions st1)"
    and e: "\<forall>g \<in> set (ps_functions st1). endLine g < int (Suc i) \<and> params_mirrored g"
    using assms unfolding st1_def parser_inv_def
    by (auto simp: ordered_functions_snoc params_mirrored_endLine split: option.splits)
  have pm: "params_mirrored \<lparr> fn_name = nm, startLine = int i + 1, endLine = int i + 1,
                  parameters = ps,
                  localVariables =
                    map (\<lambda>param. \<lparr> var_name = param, var_type = None, var_line = int i + 1,
                                    var_scope = ScopeParameter \<rparr>) ps \<rparr>" for nm ps
    by (auto simp: params_mirrored_def parameter_variable_def)
  show ?thesis
    using o e pm
    unfolding start_function_def Let_def st1_def [symmetric] parser_inv_def
    by auto
qed

lemma add_local_inv: "parser_inv n st \<Longrightarrow> parser_inv n (add_local v st)"
  by (auto simp: parser_inv_def add_local_def params_mirrored_add split: option.splits)

lemma local_statement_inv: "parser_inv n st \<Longrightarrow> parser_inv n (local_statement i raw st)"
  by (simp add: local_statement_def Let_def add_local_inv split: option.splits)

lemma class_variable_inv:
  "parser_inv n st \<Longrightarrow> parser_inv n (st\<lparr> ps_classVariables := cv \<rparr>)"
  by (auto simp: parser_inv_def split: option.splits)

lemma parse_line_inv:
  assumes "parser_inv i st"
  shows "parser_inv (Suc i) (parse_line i raw st)"
  using exit_function_inv [OF assms, of raw]
  by (simp add: parse_line_def Let_def start_function_inv local_statement_inv class_variable_inv
      split: option.splits)

lemma parse_lines_inv:
  "parser_inv n st \<Longrightarrow> parser_inv (n + length ls) (parse_lines n ls st)"
proof (induction ls arbitrary: n st)
  case Nil
  then show ?case by (simp add: parse_lines_def)
next
  case (Cons raw ls)
  have "parser_inv (Suc n + length ls) (parse_lines (Suc n) ls (parse_line n raw st))"
    by (rule Cons.IH [OF parse_line_inv [OF Cons.prems]])
  then show ?case by (simp add: parse_lines_def)
qed

lemma parser_start_inv: "parser_inv 0 parser_start"
  by (simp add: parser_inv_def parser_start_def ordered_functions_def)

lemma parsed_functions:
  "ordered_functions (script_functions (parseGDScriptContent content)) \<and>
   (\<forall>f \<in> set (script_functions (parseGDScriptContent content)). params_mirrored f)"
proof -
  define ls where "ls = split_on CHR 0x0A content"
  define st where "st = parse_lines 0 ls parser_start"
  have inv: "parser_inv (length ls) st"
    using parse_lines_inv [OF parser_start_inv, of ls] by (simp add: st_def)
  have fs: "script_functions (parseGDScriptContent content) =
      (case currentFunction st of
         None \<Rightarrow> ps_functions st
       | Some f \<Rightarrow> ps_functions st @ [f\<lparr> endLine := int (length ls) \<rparr>])"
    unfolding parseGDScriptContent_def Let_def ls_def st_def by simp
  show ?thesis
    using inv unfolding fs parser_inv_def
    by (auto simp: ordered_functions_snoc params_mirrored_endLine split: option.splits)
qed


lemma ordered_functions_unique:
  assumes "ordered_functions fs" "f \<in> set fs" "g \<in> set fs"
    "contains_line f l" "contains_line g l"
  shows "f = g"
  using assms
proof (induction fs)
  case Nil
  then show ?case by simp
next
  case (Cons h fs)
  from Cons.prems(1) have later: "\<forall>k \<in> set fs. endLine h < startLine k"
    and rest: "ordered_functions fs"
    by (simp_all add: ordered_functions_def)
  show ?case
  proof (cases "f = h")
    case fh: True
    show ?thesis
    proof (cases "g = h")
      case True
      with fh show ?thesis by simp
    next
      case False
      with Cons.prems(3) have "g \<in> set fs" by simp
      with later have "endLine h < startLine g" by simp
      with fh Cons.prems(4,5) show ?thesis by (simp add: contains_line_def)
    qed
  next
    case fh: False
    with Cons.prems(2) have f: "f \<in> set fs" by simp
    show ?thesis
    proof (cases "g = h")
      case True
      from f later have "endLine h < startLine f" by simp
      with True Cons.prems(4,5) show ?thesis by (simp add: contains_line_def)
    next
      case False
      with Cons.prems(3) have "g \<in> set fs" by simp
      from Cons.IH [OF rest f this Cons.prems(4,5)] show ?thesis .
    qed
  qed
qed

lemma find_containing:
  assumes "ordered_functions fs" "f \<in> set fs" "contains_line f l"
  shows "find (\<lambda>func. l \<ge> startLine func \<and> l \<le> endLine func) fs = Some f"
proof (cases "find (\<lambda>func. l \<ge> startLine func \<and> l \<le> endLine func) fs")
  case None
  with assms(2,3) show ?thesis by (auto simp: find_None_iff contains_line_def)
next
  case (Some g)
  then have "g \<in> set fs" "contains_line g l"
    by (auto simp: find_Some_iff contains_line_def)
  from ordered_functions_unique [OF assms(1) assms(2) this(1) assms(3) this(2)] Some
  show ?thesis by simp
qed

lemma find_not_containing:
  assumes "\<forall>f \<in> set fs. \<not> contains_line f l"
  shows "find (\<lambda>func. l \<ge> startLine func \<and> l \<le> endLine func) fs = None"
  using assms by (auto simp: find_None_iff contains_line_def)

lemma scope_of_ordered:
  assumes "ordered_functions (script_functions info)"
    and "f \<in> set (script_functions info)" and "contains_line f l"
  shows "getVariablesAtLine info l =
           classVariables info @ filter (\<lambda>v. var_line v \<le> l) (localVariables f)"
  by (simp add: getVariablesAtLine_def find_containing [OF assms])

text \<open>
  C5. For the table \<open>info\<close> that \<open>parseGDScriptContent\<close> builds from any source text, and
  any line number \<open>l\<close>: when a function of the table contains \<open>l\<close> between its start
  and end line, no other function does, and \<open>getVariablesAtLine\<close> returns exactly the
  class variables followed by those variables of that function (its parameters, which
  are declared on its start line and so all among them, and its locals) whose
  declaration line is at most \<open>l\<close>; when no function contains \<open>l\<close> it returns exactly the
  class variables.
\<close>

theorem C5_variables_in_scope:
  assumes "info = parseGDScriptContent content"
  shows "(\<forall>f \<in> set (script_functions info). contains_line f l \<longrightarrow>
            getVariablesAtLine info l =
              classVariables info @ filter (\<lambda>v. var_line v \<le> l) (localVariables f) \<and>
            (\<forall>g \<in> set (script_functions info). g \<noteq> f \<longrightarrow> \<not> contains_line g l) \<and>
            (\<forall>p \<in> set (parameters f).
               parameter_variable (startLine f) p \<in> set (getVariablesAtLine info l))) \<and>
         ((\<forall>f \<in> set (script_functions info). \<not> contains_line f l) \<longrightarrow>
            getVariablesAtLine info l = classVariables info)"
proof -
  have ord: "ordered_functions (script_functions info)"
    and mir: "\<forall>f \<in> set (script_functions info). params_mirrored f"
    using parsed_functions [of content] assms by simp_all
  have 1: "getVariablesAtLine info l =
              classVariables info @ filter (\<lambda>v. var_line v \<le> l) (localVariables f) \<and>
            (\<forall>g \<in> set (script_functions info). g \<noteq> f \<longrightarrow> \<not> contains_line g l) \<and>
            (\<forall>p \<in> set (parameters f).
               parameter_variable (startLine f) p \<in> set (getVariablesAtLine info l))"
    if f: "f \<in> set (script_functions info)" and c: "contains_line f l" for f
  proof -
    have a: "getVariablesAtLine info l =
              classVariables info @ filter (\<lambda>v. var_line v \<le> l) (localVariables f)"
      by (rule scope_of_ordered [OF ord f c])
    have b: "\<forall>g \<in> set (script_functions info). g \<noteq> f \<longrightarrow> \<not> contains_line g l"
      using ordered_functions_unique [OF ord f _ c] by blast
    have "parameter_variable (startLine f) p \<in> set (getVariablesAtLine info l)"
      if p: "p \<in> set (parameters f)" for p
    proof -
      from mir f p have "parameter_variable (startLine f) p \<in> set (localVariables f)"
        by (simp add: params_mirrored_def)
      moreover have "var_line (parameter_variable (startLine f) p) \<le> l"
        using c by (simp add: parameter_variable_def contains_line_def)
      ultimately show ?thesis unfolding a by simp
    qed
    with a b show ?thesis by blast
  qed
  have 2: "(\<forall>f \<in> set (script_functions info). \<not> contains_line f l) \<longrightarrow>
            getVariablesAtLine info l = classVariables info"
    by (simp add: getVariablesAtLine_def find_not_containing)
  from 1 2 show ?thesis by blast
qed


definition two_functions_script :: string where
  "two_functions_script = join [CHR 0x0A]
     [''var hp = 3'',
      [],
      ''func f1(a, b):'',
      [CHR 0x09] @ ''var x = 1'',
      [CHR 0x09] @ ''var y = 2'',
      [CHR 0x09] @ ''for i in range(3):'',
      [CHR 0x09, CHR 0x09] @ ''x = x + i'',
      [CHR 0x09] @ ''var late = 4'',
      [CHR 0x09] @ ''pass'',
      [CHR 0x09] @ ''return'',
      ''signal done'',
      ''func f2(c):'',
      [CHR 0x09] @ ''var z = 1'',
      [CHR 0x09] @ ''pass'',
      [CHR 0x09] @ ''pass'',
      [CHR 0x09] @ ''pass'',
      [CHR 0x09] @ ''pass'',
      [CHR 0x09] @ ''pass'',
      [CHR 0x09] @ ''pass'',
      [CHR 0x09] @ ''return'']"

definition plain_variable :: "string \<Rightarrow> int \<Rightarrow> Scope \<Rightarrow> VariableInfo" where
  "plain_variable nm l sc = \<lparr> var_name = nm, var_type = None, var_line = l, var_scope = sc \<rparr>"

definition f1_info :: FunctionInfo where
  "f1_info = \<lparr> fn_name = ''f1'', startLine = 3, endLine = 10, parameters = [''a'', ''b''],
     localVariables =
       [plain_variable ''a'' 3 ScopeParameter, plain_variable ''b'' 3 ScopeParameter,
        plain_variable ''x'' 4 ScopeLocal, plain_variable ''y'' 5 ScopeLocal,
        plain_variable ''i'' 6 ScopeLocal, plain_variable ''late'' 8 ScopeLocal] \<rparr>"

definition f2_info :: FunctionInfo where
  "f2_info = \<lparr> fn_name = ''f2'', startLine = 12, endLine = 20, parameters = [''c''],
     localVariables =
       [plain_variable ''c'' 12 ScopeParameter, plain_variable ''z'' 13 ScopeLocal] \<rparr>"

lemma parsed_two_functions:
  "parseGDScriptContent two_functions_script =
     \<lparr> classVariables = [plain_variable ''hp'' 1 ScopeClass],
       script_functions = [f1_info, f2_info] \<rparr>"
  unfolding two_functions_script_def f1_info_def f2_info_def plain_variable_def
  by code_simp

theorem C5_witness:
  "getVariablesAtLine (parseGDScriptContent two_functions_script) 7 =
     [plain_variable ''hp'' 1 ScopeClass,
      plain_variable ''a'' 3 ScopeParameter, plain_variable ''b'' 3 ScopeParameter,
      plain_variable ''x'' 4 ScopeLocal, plain_variable ''y'' 5 ScopeLocal,
      plain_variable ''i'' 6 ScopeLocal] \<and>
   contains_line f1_info 7 \<and> \<not> contains_line f2_info 7"
proof -
  have c1: "contains_line f1_info 7" and c2: "\<not> contains_line f2_info 7"
    by (simp_all add: contains_line_def f1_info_def f2_info_def)
  have mem: "f1_info \<in> set (script_functions (parseGDScriptContent two_functions_script))"
    by (simp add: parsed_two_functions)
  from C5_variables_in_scope [OF refl, of two_functions_script 7] mem c1
  have "getVariablesAtLine (parseGDScriptContent two_functions_script) 7 =
      classVariables (parseGDScriptContent two_functions_script) @
      filter (\<lambda>v. var_line v \<le> 7) (localVariables f1_info)"
    by blast
  then have "getVariablesAtLine (parseGDScriptContent two_functions_script) 7 =
     [plain_variable ''hp'' 1 ScopeClass,
      plain_variable ''a'' 3 ScopeParameter, plain_variable ''b'' 3 ScopeParameter,
      plain_variable ''x'' 4 ScopeLocal, plain_variable ''y'' 5 ScopeLocal,
      plain_variable ''i'' 6 ScopeLocal]"
    by (simp add: parsed_two_functions f1_info_def plain_variable_def)
  with c1 c2 show ?thesis by simp
qed

subsection \<open>Matching anchored patterns\<close>

lemma exec_at_Bol_False: "exec_at (Seq Bol r) False s = None"
proof (induction s)
  case Nil
  show ?case by (subst exec_at.simps) simp
next
  case (Cons c cs)
  show ?case by (subst exec_at.simps) (simp add: Cons.IH)
qed

lemma str_match_anchored:
  "str_match s (Seq Bol r) =
     (case ms r (True, s, []) of
        [] \<Rightarrow> None
      | st # _ \<Rightarrow> Some ((0, take (length s - length (fst (snd st))) s) # snd (snd st)))"
proof (cases "ms r (True, s, [])")
  case Nil
  then show ?thesis
    unfolding str_match_def
    by (subst exec_at.simps) (simp add: exec_at_Bol_False split: list.splits)
next
  case (Cons st sts)
  then show ?thesis
    unfolding str_match_def by (subst exec_at.simps) simp
qed

lemma ms_lit:
  "ms (lit w) (b, s, g) =
     (if startsWith s w then [(b \<and> w = [], drop (length w) s, g)] else [])"
proof (induction w arbitrary: b s)
  case Nil
  then show ?case by (simp add: lit_def startsWith_def)
next
  case (Cons c w)
  have unf: "lit (c # w) = Seq (Chr (\<lambda>x. x = c)) (lit w)" by (simp add: lit_def)
  show ?case
  proof (cases s)
    case Nil
    then show ?thesis by (simp add: unf startsWith_def)
  next
    case (Cons d ds)
    then show ?thesis using Cons.IH [of False ds]
      by (auto simp: unf startsWith_def)
  qed
qed

lemma star_iter_first:
  assumes f: "\<And>b s g. f (b, s, g) =
       (case s of [] \<Rightarrow> [] | c # cs \<Rightarrow> if p c then [(False, cs, g)] else [])"
  shows "length s \<le> n \<Longrightarrow>
     \<exists>rest. star_iter n f (b, s, g) =
        ((if takeWhile p s = [] then b else False), dropWhile p s, g) # rest"
proof (induction n arbitrary: s b)
  case 0
  then show ?case by simp
next
  case (Suc n)
  show ?case
  proof (cases s)
    case Nil
    then show ?thesis by (simp add: f)
  next
    case (Cons c cs)
    show ?thesis
    proof (cases "p c")
      case True
      from Suc.prems Cons have "length cs \<le> n" by simp
      from Suc.IH [OF this, of False] obtain rest where
        "star_iter n f (False, cs, g) = (False, dropWhile p cs, g) # rest"
        by (simp only: if_cancel) blast
      with Cons True show ?thesis by (simp add: f)
    next
      case False
      with Cons show ?thesis by (simp add: f)
    qed
  qed
qed

lemma star_chr_first:
  "length s \<le> n \<Longrightarrow>
     \<exists>rest. star_iter n (ms (Chr p)) (b, s, g) =
        ((if takeWhile p s = [] then b else False), dropWhile p s, g) # rest"
  by (rule star_iter_first) (simp_all split: list.splits)

lemma ms_one_or_more_chr:
  "ms (OneOrMore (Chr p)) (b, s, g) =
     (case s of
        [] \<Rightarrow> []
      | c # cs \<Rightarrow> if p c then star_iter (length cs) (ms (Chr p)) (False, cs, g) else [])"
  by (simp add: OneOrMore_def split: list.splits)

lemma one_or_more_chr_first:
  "takeWhile p s \<noteq> [] \<Longrightarrow>
     \<exists>rest. ms (OneOrMore (Chr p)) (b, s, g) = (False, dropWhile p s, g) # rest"
proof (cases s)
  case Nil
  assume "takeWhile p s \<noteq> []"
  with Nil show ?thesis by simp
next
  case (Cons c cs)
  assume ne: "takeWhile p s \<noteq> []"
  with Cons have pc: "p c" by (simp split: if_splits)
  from star_chr_first [of cs "length cs" p False g] obtain rest where
    "star_iter (length cs) (ms (Chr p)) (False, cs, g) = (False, dropWhile p cs, g) # rest"
    by (simp only: if_cancel order_refl) blast
  with Cons pc show ?thesis by (simp add: ms_one_or_more_chr)
qed

lemma one_or_more_chr_none:
  "takeWhile p s = [] \<Longrightarrow> ms (OneOrMore (Chr p)) (b, s, g) = []"
  by (cases s) (auto simp: ms_one_or_more_chr split: if_splits)

lemma identPattern_match:
  "str_match t identPattern =
     (if takeWhile is_word t = [] then None
      else Some [(0, takeWhile is_word t), (1, takeWhile is_word t)])"
proof (cases "takeWhile is_word t = []")
  case True
  then show ?thesis
    by (simp add: identPattern_def seqs_def str_match_anchored one_or_more_chr_none)
next
  case False
  from one_or_more_chr_first [OF False, of True "[]"] obtain rest where
    r: "ms (OneOrMore (Chr is_word)) (True, t, []) = (False, dropWhile is_word t, []) # rest"
    by blast
  have len: "length t - length (dropWhile is_word t) = length (takeWhile is_word t)"
    by (metis add_diff_cancel_right' length_append takeWhile_dropWhile_id)
  have tk: "take (length (takeWhile is_word t)) t = takeWhile is_word t"
    by (metis append_eq_conv_conj takeWhile_dropWhile_id)
  from False show ?thesis
    by (simp add: identPattern_def seqs_def str_match_anchored r len tk)
qed

text \<open>A greedy run of one character class, followed by a pattern that cannot start
  with a character of the class: the matcher tries the longest run first, and every
  shorter run fails in what follows, so only the longest run is left.\<close>

lemma star_iter_then:
  assumes f: "\<And>b s g. f (b, s, g) =
       (case s of [] \<Rightarrow> [] | c # cs \<Rightarrow> if p c then [(False, cs, g)] else [])"
    and rej: "\<And>b c cs g. p c \<Longrightarrow> F (b, c # cs, g) = []"
  shows "length s \<le> n \<Longrightarrow>
     concat (map F (star_iter n f (b, s, g))) =
       F ((if takeWhile p s = [] then b else False), dropWhile p s, g)"
proof (induction n arbitrary: s b)
  case 0
  then show ?case by simp
next
  case (Suc n)
  show ?case
  proof (cases s)
    case Nil
    then show ?thesis by (simp add: f)
  next
    case (Cons c cs)
    show ?thesis
    proof (cases "p c")
      case True
      from Suc.prems Cons have "length cs \<le> n" by simp
      from Suc.IH [OF this, of False]
      have "concat (map F (star_iter n f (False, cs, g))) = F (False, dropWhile p cs, g)"
        by (simp only: if_cancel)
      with Cons True rej [OF True] show ?thesis by (simp add: f)
    next
      case False
      with Cons show ?thesis by (simp add: f)
    qed
  qed
qed

lemma star_chr_then:
  assumes "\<And>b c cs g. p c \<Longrightarrow> F (b, c # cs, g) = []"
  shows "length s \<le> n \<Longrightarrow>
     concat (map F (star_iter n (ms (Chr p)) (b, s, g))) =
       F ((if takeWhile p s = [] then b else False), dropWhile p s, g)"
  by (rule star_iter_then [where p = p]) (simp_all add: assms split: list.splits)

lemma ms_star_chr_then:
  assumes "\<And>b c cs g. p c \<Longrightarrow> F (b, c # cs, g) = []"
  shows "concat (map F (ms (Star (Chr p)) (b, s, g))) =
       F ((if takeWhile p s = [] then b else False), dropWhile p s, g)"
  using star_chr_then [of p F s "length s" b g, OF assms] by simp

lemma ms_plus_chr_then:
  assumes "\<And>b c cs g. p c \<Longrightarrow> F (b, c # cs, g) = []"
  shows "concat (map F (ms (OneOrMore (Chr p)) (b, s, g))) =
       (if takeWhile p s = [] then [] else F (False, dropWhile p s, g))"
proof (cases s)
  case Nil
  then show ?thesis by (simp add: OneOrMore_def)
next
  case (Cons c cs)
  show ?thesis
  proof (cases "p c")
    case True
    have "concat (map F (star_iter (length cs) (ms (Chr p)) (False, cs, g))) =
       F (False, dropWhile p cs, g)"
      using star_chr_then [of p F cs "length cs" False g, OF assms] by simp
    with Cons True show ?thesis by (simp add: OneOrMore_def)
  next
    case False
    with Cons show ?thesis by (simp add: OneOrMore_def)
  qed
qed

lemma take_length_dropWhile: "take (length s - length (dropWhile p s)) s = takeWhile p s"
proof -
  have "length s - length (dropWhile p s) = length (takeWhile p s)"
    by (metis add_diff_cancel_right' length_append takeWhile_dropWhile_id)
  then show ?thesis by (metis append_eq_conv_conj takeWhile_dropWhile_id)
qed

lemma ms_seq_star_chr:
  assumes "\<And>b c cs g. p c \<Longrightarrow> ms r (b, c # cs, g) = []"
  shows "ms (Seq (Star (Chr p)) r) (b, s, g) =
       ms r ((if takeWhile p s = [] then b else False), dropWhile p s, g)"
  using ms_star_chr_then [of p "ms r" b s g, OF assms] by simp

lemma ms_seq_plus_chr:
  assumes "\<And>b c cs g. p c \<Longrightarrow> ms r (b, c # cs, g) = []"
  shows "ms (Seq (OneOrMore (Chr p)) r) (b, s, g) =
       (if takeWhile p s = [] then [] else ms r (False, dropWhile p s, g))"
  using ms_plus_chr_then [of p "ms r" b s g, OF assms] by simp

lemma ms_seq_grp_star_chr:
  assumes rej: "\<And>b c cs g. p c \<Longrightarrow> ms r (b, c # cs, g) = []"
  shows "ms (Seq (Grp k (Star (Chr p))) r) (b, s, g) =
       ms r ((if takeWhile p s = [] then b else False), dropWhile p s, (k, takeWhile p s) # g)"
proof -
  define F where "F = (\<lambda>st'. ms r (fst st', fst (snd st'),
      (k, take (length s - length (fst (snd st'))) s) # snd (snd st')))"
  have r: "F (b, c # cs, g) = []" if "p c" for b c cs g
    unfolding F_def using rej [OF that] by simp
  have "ms (Seq (Grp k (Star (Chr p))) r) (b, s, g) =
      concat (map F (ms (Star (Chr p)) (b, s, g)))"
    unfolding F_def by (simp add: comp_def)
  also have "\<dots> = F ((if takeWhile p s = [] then b else False), dropWhile p s, g)"
    by (rule ms_star_chr_then [of p F, OF r])
  finally show ?thesis by (simp add: F_def take_length_dropWhile)
qed

lemma ms_seq_grp_plus_chr:
  assumes rej: "\<And>b c cs g. p c \<Longrightarrow> ms r (b, c # cs, g) = []"
  shows "ms (Seq (Grp k (OneOrMore (Chr p))) r) (b, s, g) =
       (if takeWhile p s = [] then []
        else ms r (False, dropWhile p s, (k, takeWhile p s) # g))"
proof -
  define F where "F = (\<lambda>st'. ms r (fst st', fst (snd st'),
      (k, take (length s - length (fst (snd st'))) s) # snd (snd st')))"
  have r: "F (b, c # cs, g) = []" if "p c" for b c cs g
    unfolding F_def using rej [OF that] by simp
  have "ms (Seq (Grp k (OneOrMore (Chr p))) r) (b, s, g) =
      concat (map F (ms (OneOrMore (Chr p)) (b, s, g)))"
    unfolding F_def by (simp add: comp_def)
  also have "\<dots> = (if takeWhile p s = [] then [] else F (False, dropWhile p s, g))"
    by (rule ms_plus_chr_then [of p F, OF r])
  finally show ?thesis by (simp add: F_def take_length_dropWhile)
qed

lemma ms_seq_lit:
  "ms (Seq (lit w) r) (b, s, g) =
     (if startsWith s w then ms r (b \<and> w = [], drop (length w) s, g) else [])"
  by (simp add: ms_lit)


subsection \<open>Where a function begins\<close>

text \<open>The parameter list in the words of the specification: split on commas, take
  the leading identifier of each part.\<close>

definition leading_identifier :: "string \<Rightarrow> string option" where
  "leading_identifier part =
     (let w = takeWhile is_word (trim part) in if w = [] then None else Some w)"

definition parameters_by_splitting :: "string \<Rightarrow> string list" where
  "parameters_by_splitting paramsStr =
     (if trim paramsStr = [] then []
      else concat (map (\<lambda>part. case leading_identifier part of None \<Rightarrow> [] | Some w \<Rightarrow> [w])
                       (split_on CHR '','' paramsStr)))"

lemma parseParameters_by_splitting: "parseParameters paramsStr = parameters_by_splitting paramsStr"
proof -
  have "(case str_match (trim part) identPattern of None \<Rightarrow> [] | Some m \<Rightarrow> [group m 1]) =
        (case leading_identifier part of None \<Rightarrow> [] | Some w \<Rightarrow> [w])" for part
    by (simp add: identPattern_match leading_identifier_def Let_def group_def)
  then show ?thesis
    by (simp add: parseParameters_def parameters_by_splitting_def)
qed

lemma funcPattern_unfold:
  "funcPattern = Seq Bol (Seq (lit ''func'')
     (seqs [OneOrMore (Chr is_space), Grp 1 (OneOrMore (Chr is_word)),
      Star (Chr is_space), lit ''('', Grp 2 (Star (Chr (\<lambda>c. c \<noteq> CHR '')''))), lit '')'']))"
  by (simp add: funcPattern_def seqs_def)

lemma funcPattern_needs_func:
  assumes "str_match raw funcPattern = Some m"
  shows "startsWith raw ''func''"
proof (rule ccontr)
  assume "\<not> startsWith raw ''func''"
  then have "ms (lit ''func'') (True, raw, []) = []" by (simp add: ms_lit)
  then have "str_match raw funcPattern = None"
    unfolding funcPattern_unfold str_match_anchored by simp
  with assms show False by simp
qed

lemma starts_with_func:
  assumes "startsWith raw ''func''"
  shows "trimStart raw = raw" "raw \<noteq> []" "\<not> startsWith raw ''#''"
proof -
  from assms have "take (length ''func'') raw = ''func''" by (simp only: startsWith_def)
  then have "raw = ''func'' @ drop (length ''func'') raw"
    using append_take_drop_id [of "length ''func''" raw] by simp
  then obtain rest where r: "raw = ''func'' @ rest" ..
  show "trimStart raw = raw" by (simp add: r trimStart_def is_space_def)
  show "raw \<noteq> []" by (simp add: r)
  show "\<not> startsWith raw ''#''" by (simp add: r startsWith_def)
qed


lemma start_function_current:
  "currentFunction (start_function i raw m st) = Some
     \<lparr> fn_name = group m 1, startLine = int i + 1, endLine = int i + 1,
       parameters = parseParameters (group m 2),
       localVariables = map (parameter_variable (int i + 1)) (parseParameters (group m 2)) \<rparr>"
proof -
  have "parameter_variable l = (\<lambda>param. \<lparr> var_name = param, var_type = None, var_line = l,
      var_scope = ScopeParameter \<rparr>)" for l
    by (rule ext) (simp add: parameter_variable_def)
  then show ?thesis by (simp add: start_function_def Let_def split: option.splits)
qed

lemma parse_line_func:
  assumes "str_match raw funcPattern = Some m"
  shows "parse_line i raw st = start_function i raw m (exit_function i raw st)"
  using assms starts_with_func [OF funcPattern_needs_func [OF assms]]
  by (simp add: parse_line_def Let_def)

lemma indented_line_no_function:
  assumes "raw = c # cs" "is_space c"
  shows "str_match raw funcPattern = None"
proof (cases "str_match raw funcPattern")
  case None
  then show ?thesis .
next
  case (Some m)
  from funcPattern_needs_func [OF Some] assms(1) have "c = CHR ''f''"
    by (simp add: startsWith_def)
  with assms(2) show ?thesis by (simp add: is_space_def)
qed

subsection \<open>What the function-definition pattern accepts\<close>

text \<open>
  \<open>funcPattern\<close> without the matcher: the line starts with \<open>func\<close>, then at least one
  white-space character, a name of word characters, white space, an opening
  parenthesis, the text up to the first closing parenthesis, and that parenthesis.
  The result is the name, the text between the parentheses, and the rest of the line.
\<close>

definition func_header :: "string \<Rightarrow> (string \<times> string \<times> string) option" where
  "func_header raw =
     (if startsWith raw ''func'' then
        (let afterFunc = drop 4 raw;
             afterSpace = dropWhile is_space afterFunc;
             name = takeWhile is_word afterSpace;
             afterName = dropWhile is_space (dropWhile is_word afterSpace);
             inner = drop 1 afterName;
             params = takeWhile (\<lambda>c. c \<noteq> CHR '')'') inner;
             closing = dropWhile (\<lambda>c. c \<noteq> CHR '')'') inner
         in if takeWhile is_space afterFunc \<noteq> [] \<and> name \<noteq> [] \<and>
               startsWith afterName ''('' \<and> startsWith closing '')''
            then Some (name, params, drop 1 closing) else None)
      else None)"

definition func_tail7 :: re where "func_tail7 = Seq (lit '')'') Eps"
definition func_tail6 :: re where
  "func_tail6 = Seq (Grp 2 (Star (Chr (\<lambda>c. c \<noteq> CHR '')'')))) func_tail7"
definition func_tail5 :: re where "func_tail5 = Seq (lit ''('') func_tail6"
definition func_tail4 :: re where "func_tail4 = Seq (Star (Chr is_space)) func_tail5"
definition func_tail3 :: re where
  "func_tail3 = Seq (Grp 1 (OneOrMore (Chr is_word))) func_tail4"
definition func_tail2 :: re where "func_tail2 = Seq (OneOrMore (Chr is_space)) func_tail3"
definition func_tail1 :: re where "func_tail1 = Seq (lit ''func'') func_tail2"

lemma funcPattern_tails: "funcPattern = Seq Bol func_tail1"
  by (simp add: funcPattern_def seqs_def func_tail1_def func_tail2_def func_tail3_def
      func_tail4_def func_tail5_def func_tail6_def func_tail7_def)

lemma ms_func_tail7:
  "ms func_tail7 (b, s, g) = (if startsWith s '')'' then [(False, drop 1 s, g)] else [])"
  unfolding func_tail7_def by (subst ms_seq_lit) simp

lemma ms_func_tail6:
  "ms func_tail6 (b, s, g) =
     ms func_tail7 ((if takeWhile (\<lambda>c. c \<noteq> CHR '')'') s = [] then b else False),
        dropWhile (\<lambda>c. c \<noteq> CHR '')'') s, (2, takeWhile (\<lambda>c. c \<noteq> CHR '')'') s) # g)"
  unfolding func_tail6_def
  by (rule ms_seq_grp_star_chr) (simp add: ms_func_tail7 startsWith_def)

lemma ms_func_tail5:
  "ms func_tail5 (b, s, g) = (if startsWith s ''('' then ms func_tail6 (False, drop 1 s, g) else [])"
  unfolding func_tail5_def by (subst ms_seq_lit) simp

lemma is_space_not_paren: "is_space c \<Longrightarrow> c \<noteq> CHR ''(''"
  by (auto simp: is_space_def)

lemma is_word_not_space: "is_word c \<Longrightarrow> \<not> is_space c"
  by (auto simp: is_word_def is_space_def Let_def)

lemma is_word_not_paren: "is_word c \<Longrightarrow> c \<noteq> CHR ''(''"
  by (auto simp: is_word_def Let_def)

lemma ms_func_tail4:
  "ms func_tail4 (b, s, g) =
     ms func_tail5 ((if takeWhile is_space s = [] then b else False), dropWhile is_space s, g)"
  unfolding func_tail4_def
  by (rule ms_seq_star_chr) (simp add: ms_func_tail5 startsWith_def is_space_not_paren)

lemma ms_func_tail3:
  "ms func_tail3 (b, s, g) =
     (if takeWhile is_word s = [] then []
      else ms func_tail4 (False, dropWhile is_word s, (1, takeWhile is_word s) # g))"
  unfolding func_tail3_def
  by (rule ms_seq_grp_plus_chr)
     (simp add: ms_func_tail4 ms_func_tail5 startsWith_def is_word_not_space is_word_not_paren)

lemma ms_func_tail2:
  "ms func_tail2 (b, s, g) =
     (if takeWhile is_space s = [] then [] else ms func_tail3 (False, dropWhile is_space s, g))"
  unfolding func_tail2_def
  by (rule ms_seq_plus_chr) (auto simp: ms_func_tail3 dest: is_word_not_space)

lemma ms_func_tail1:
  "ms func_tail1 (b, s, g) =
     (if startsWith s ''func'' then ms func_tail2 (False, drop 4 s, g) else [])"
  unfolding func_tail1_def by (subst ms_seq_lit) (simp add: eval_nat_numeral)

lemma ms_func_tail1_header:
  "ms func_tail1 (True, raw, []) =
     (case func_header raw of
        None \<Rightarrow> []
      | Some (name, params, rest) \<Rightarrow> [(False, rest, [(2, params), (1, name)])])"
  by (simp add: ms_func_tail1 ms_func_tail2 ms_func_tail3 ms_func_tail4 ms_func_tail5
      ms_func_tail6 ms_func_tail7 func_header_def Let_def)

lemma funcPattern_header:
  "str_match raw funcPattern =
     (case func_header raw of
        None \<Rightarrow> None
      | Some (name, params, rest) \<Rightarrow>
          Some [(0, take (length raw - length rest) raw), (2, params), (1, name)])"
  unfolding funcPattern_tails str_match_anchored ms_func_tail1_header
  by (simp split: option.splits)

subsection \<open>The functions a line begins\<close>

text \<open>The functions that the parser has begun: the finished ones and the one being
  read. A function is identified by its name, start line and parameter list.
  \<open>begun_by i raw\<close> is what the line \<open>raw\<close> with index \<open>i\<close> adds to them.\<close>

definition open_functions :: "parser_state \<Rightarrow> FunctionInfo list" where
  "open_functions st =
     ps_functions st @ (case currentFunction st of None \<Rightarrow> [] | Some f \<Rightarrow> [f])"

definition function_header :: "FunctionInfo \<Rightarrow> string \<times> int \<times> string list" where
  "function_header f = (fn_name f, startLine f, parameters f)"

definition begun_by :: "nat \<Rightarrow> string \<Rightarrow> (string \<times> int \<times> string list) list" where
  "begun_by i raw =
     (case func_header raw of
        None \<Rightarrow> []
      | Some (name, params, rest) \<Rightarrow> [(name, int i + 1, parameters_by_splitting params)])"

lemma function_header_endLine [simp]: "function_header (f\<lparr> endLine := e \<rparr>) = function_header f"
  by (simp add: function_header_def)

lemma function_header_locals [simp]:
  "function_header (f\<lparr> localVariables := vs \<rparr>) = function_header f"
  by (simp add: function_header_def)

lemma exit_function_headers:
  "map function_header (open_functions (exit_function i raw st)) =
     map function_header (open_functions st)"
  by (simp add: exit_function_def open_functions_def Let_def split: option.splits)

lemma start_function_headers:
  "map function_header (open_functions (start_function i raw m st)) =
     map function_header (open_functions st) @
       [(group m 1, int i + 1, parseParameters (group m 2))]"
  by (simp add: start_function_def open_functions_def Let_def function_header_def
      split: option.splits)

lemma add_local_headers:
  "map function_header (open_functions (add_local v st)) = map function_header (open_functions st)"
  by (simp add: add_local_def open_functions_def split: option.splits)

lemma local_statement_headers:
  "map function_header (open_functions (local_statement i raw st)) =
     map function_header (open_functions st)"
  by (simp add: local_statement_def Let_def add_local_headers split: option.splits)

lemma class_variable_headers:
  "open_functions (st\<lparr> ps_classVariables := cv \<rparr>) = open_functions st"
  by (simp add: open_functions_def)

lemma func_header_group:
  "func_header raw = Some (name, params, rest) \<Longrightarrow>
     \<exists>m. str_match raw funcPattern = Some m \<and> group m 1 = name \<and> group m 2 = params"
  by (simp add: funcPattern_header group_def)

lemma func_header_None: "func_header raw = None \<Longrightarrow> str_match raw funcPattern = None"
  by (simp add: funcPattern_header)

lemma parse_line_headers:
  "map function_header (open_functions (parse_line i raw st)) =
     map function_header (open_functions st) @ begun_by i raw"
proof (cases "func_header raw")
  case None
  have n: "str_match raw funcPattern = None" by (rule func_header_None [OF None])
  show ?thesis
    by (simp add: parse_line_def Let_def n begun_by_def None exit_function_headers
        local_statement_headers class_variable_headers split: option.splits)
next
  case (Some h)
  obtain name params rest where h: "h = (name, params, rest)" by (cases h)
  from func_header_group [OF Some [unfolded h]] obtain m where
    m: "str_match raw funcPattern = Some m" "group m 1 = name" "group m 2 = params"
    by blast
  have pl: "parse_line i raw st = start_function i raw m (exit_function i raw st)"
    by (rule parse_line_func [OF m(1)])
  have b: "begun_by i raw = [(name, int i + 1, parameters_by_splitting params)]"
    by (simp add: begun_by_def Some h)
  have e: "(group m 1, int i + 1, parseParameters (group m 2)) =
      (name, int i + 1, parameters_by_splitting params)"
    unfolding m(2,3) parseParameters_by_splitting ..
  show ?thesis
    by (simp only: pl start_function_headers exit_function_headers b e)
qed

lemma parse_lines_headers:
  "map function_header (open_functions (parse_lines n ls st)) =
     map function_header (open_functions st) @
       concat (map (\<lambda>(i, raw). begun_by i raw) (enumerate n ls))"
proof (induction ls arbitrary: n st)
  case Nil
  show ?case by (simp add: parse_lines_def)
next
  case (Cons raw ls)
  have "parse_lines n (raw # ls) st = parse_lines (Suc n) ls (parse_line n raw st)"
    by (simp add: parse_lines_def)
  then show ?case by (simp add: Cons.IH parse_line_headers)
qed

lemma script_functions_headers:
  "map function_header (script_functions (parseGDScriptContent content)) =
     concat (map (\<lambda>(i, raw). begun_by i raw) (enumerate 0 (split_on CHR 0x0A content)))"
proof -
  define ls where "ls = split_on CHR 0x0A content"
  define st where "st = parse_lines 0 ls parser_start"
  have "map function_header (script_functions (parseGDScriptContent content)) =
      map function_header (open_functions st)"
    unfolding parseGDScriptContent_def Let_def ls_def [symmetric] st_def [symmetric]
    by (simp add: open_functions_def split: option.splits)
  also have "\<dots> = map function_header (open_functions parser_start) @
       concat (map (\<lambda>(i, raw). begun_by i raw) (enumerate 0 ls))"
    unfolding st_def by (rule parse_lines_headers)
  finally show ?thesis by (simp add: open_functions_def parser_start_def ls_def)
qed

lemma func_header_shape:
  assumes "func_header raw = Some (name, params, rest)"
  shows "\<exists>ws sp. raw = ''func'' @ ws @ name @ sp @ ''('' @ params @ '')'' @ rest \<and>
           ws \<noteq> [] \<and> list_all is_space ws \<and> name \<noteq> [] \<and> list_all is_word name \<and>
           list_all is_space sp \<and> CHR '')'' \<notin> set params"
proof -
  define afterFunc where "afterFunc = drop 4 raw"
  define afterSpace where "afterSpace = dropWhile is_space afterFunc"
  define afterWord where "afterWord = dropWhile is_word afterSpace"
  define afterName where "afterName = dropWhile is_space afterWord"
  define inner where "inner = drop 1 afterName"
  define closing where "closing = dropWhile (\<lambda>c. c \<noteq> CHR '')'') inner"
  define ws where "ws = takeWhile is_space afterFunc"
  define sp where "sp = takeWhile is_space afterWord"
  from assms have f: "startsWith raw ''func''"
    by (simp add: func_header_def split: if_splits)
  from assms f have c: "ws \<noteq> []" "name \<noteq> []" "startsWith afterName ''(''"
      "startsWith closing '')''"
    and nm: "name = takeWhile is_word afterSpace"
    and pr: "params = takeWhile (\<lambda>c. c \<noteq> CHR '')'') inner"
    and rs: "rest = drop 1 closing"
    unfolding func_header_def Let_def afterFunc_def [symmetric] afterSpace_def [symmetric]
      afterWord_def [symmetric] afterName_def [symmetric] inner_def [symmetric]
      closing_def [symmetric] ws_def [symmetric]
    by (simp_all split: if_splits)
  have len: "length ''func'' = 4" by simp
  have t: "take 4 raw = ''func''" using f unfolding startsWith_def len .
  have "take 4 raw @ drop 4 raw = raw" by (rule append_take_drop_id)
  then have 1: "raw = ''func'' @ afterFunc" unfolding t afterFunc_def by (rule sym)
  have 2: "afterFunc = ws @ afterSpace" by (simp add: ws_def afterSpace_def)
  have 3: "afterSpace = name @ afterWord" by (simp add: nm afterWord_def)
  have 4: "afterWord = sp @ afterName" by (simp add: sp_def afterName_def)
  have 5: "afterName = ''('' @ inner"
    using c(3) append_take_drop_id [of 1 afterName] by (simp add: startsWith_def inner_def)
  have 6: "inner = params @ closing" by (simp add: pr closing_def)
  have 7: "closing = '')'' @ rest"
    using c(4) append_take_drop_id [of 1 closing] by (simp add: startsWith_def rs)
  have "raw = ''func'' @ ws @ name @ sp @ ''('' @ params @ '')'' @ rest"
    by (subst 1, subst 2, subst 3, subst 4, subst 5, subst 6, subst 7) simp
  moreover have "list_all is_space ws" "list_all is_space sp" "list_all is_word name"
    by (auto simp: ws_def sp_def nm list_all_iff dest: set_takeWhileD)
  moreover have "CHR '')'' \<notin> set params"
    by (auto simp: pr dest: set_takeWhileD)
  ultimately show ?thesis using c(1,2) by blast
qed

lemma takeWhile_stop: "ys = [] \<or> \<not> P (hd ys) \<Longrightarrow> takeWhile P ys = []"
  by (cases ys) auto

lemma dropWhile_stop: "ys = [] \<or> \<not> P (hd ys) \<Longrightarrow> dropWhile P ys = ys"
  by (cases ys) auto

lemma not_word_paren: "\<not> is_word CHR ''(''"
  by (simp add: is_word_def Let_def)

lemma not_space_paren: "\<not> is_space CHR ''(''"
  by (simp add: is_space_def)

lemma func_header_of_shape:
  assumes raw: "raw = ''func'' @ ws @ name @ sp @ ''('' @ params @ '')'' @ rest"
    and ws: "ws \<noteq> []" "list_all is_space ws"
    and name: "name \<noteq> []" "list_all is_word name"
    and sp: "list_all is_space sp"
    and params: "CHR '')'' \<notin> set params"
  shows "func_header raw = Some (name, params, rest)"
proof -
  define t5 where "t5 = params @ '')'' @ rest"
  define t4 where "t4 = ''('' @ t5"
  define t3 where "t3 = sp @ t4"
  define t2 where "t2 = name @ t3"
  define t1 where "t1 = ws @ t2"
  have r: "raw = ''func'' @ t1" by (simp add: raw t1_def t2_def t3_def t4_def t5_def)
  have sw: "startsWith raw ''func''" by (simp add: r startsWith_def)
  have d4: "drop 4 raw = t1" by (simp add: r)
  have h2: "\<not> is_space (hd t2)"
    using name by (cases name) (auto simp: t2_def dest: is_word_not_space)
  have a1: "takeWhile is_space t1 = ws" "dropWhile is_space t1 = t2"
    using ws(2) h2 unfolding t1_def
    by (simp_all add: takeWhile_append2 dropWhile_append2 list_all_iff takeWhile_stop
        dropWhile_stop)
  have h3: "\<not> is_word (hd t3)"
  proof (cases sp)
    case Nil
    then show ?thesis by (simp add: t3_def t4_def not_word_paren)
  next
    case (Cons s ss)
    with sp have "is_space s" by simp
    then have "\<not> is_word s" using is_word_not_space by blast
    with Cons show ?thesis by (simp add: t3_def)
  qed
  have a2: "takeWhile is_word t2 = name" "dropWhile is_word t2 = t3"
    using name(2) h3 unfolding t2_def
    by (simp_all add: takeWhile_append2 dropWhile_append2 list_all_iff takeWhile_stop
        dropWhile_stop)
  have a3: "dropWhile is_space t3 = t4"
    using sp unfolding t3_def
    by (simp add: dropWhile_append2 list_all_iff) (simp add: t4_def not_space_paren)
  have a4: "startsWith t4 ''(''" "drop 1 t4 = t5" by (simp_all add: t4_def startsWith_def)
  have a5: "takeWhile (\<lambda>c. c \<noteq> CHR '')'') t5 = params"
    "dropWhile (\<lambda>c. c \<noteq> CHR '')'') t5 = '')'' @ rest"
  proof -
    have p: "\<And>x. x \<in> set params \<Longrightarrow> x \<noteq> CHR '')''" using params by auto
    show "takeWhile (\<lambda>c. c \<noteq> CHR '')'') t5 = params"
      unfolding t5_def by (subst takeWhile_append2) (simp_all add: p)
    show "dropWhile (\<lambda>c. c \<noteq> CHR '')'') t5 = '')'' @ rest"
      unfolding t5_def by (subst dropWhile_append2) (simp_all add: p)
  qed
  show ?thesis
    unfolding func_header_def Let_def d4 a1 a2 a3 a4 a5
    using sw ws(1) name(1) a4(1) by (simp add: startsWith_def)
qed

subsection \<open>Parameter lists without commas inside a parameter\<close>

text \<open>A parameter written as optional white space, a name of word characters, and a
  remainder that does not start with a word character and holds no comma (a type
  annotation, a default value, trailing white space).\<close>

definition simple_parameter :: "string \<times> string \<times> string \<Rightarrow> bool" where
  "simple_parameter q =
     (case q of
        (sp, name, rest) \<Rightarrow>
          list_all is_space sp \<and> name \<noteq> [] \<and> list_all is_word name \<and>
          (rest = [] \<or> \<not> is_word (hd rest)) \<and> CHR '','' \<notin> set rest)"

definition parameter_text :: "string \<times> string \<times> string \<Rightarrow> string" where
  "parameter_text q = (case q of (sp, name, rest) \<Rightarrow> sp @ name @ rest)"

definition parameter_name :: "string \<times> string \<times> string \<Rightarrow> string" where
  "parameter_name q = (case q of (sp, name, rest) \<Rightarrow> name)"

lemma split_on_no_sep: "sep \<notin> set p \<Longrightarrow> split_on sep p = [p]"
  by (induction p) auto

lemma split_on_append_sep:
  "sep \<notin> set p \<Longrightarrow> split_on sep (p @ sep # rest) = p # split_on sep rest"
  by (induction p) (auto split: list.splits)

lemma split_on_join:
  "parts \<noteq> [] \<Longrightarrow> \<forall>p \<in> set parts. sep \<notin> set p \<Longrightarrow>
     split_on sep (join [sep] parts) = parts"
proof (induction parts)
  case Nil
  then show ?case by simp
next
  case (Cons x xs)
  show ?case
  proof (cases xs)
    case Nil
    with Cons.prems show ?thesis by (simp add: split_on_no_sep)
  next
    case (Cons y ys)
    with Cons.prems Cons.IH show ?thesis by (simp add: split_on_append_sep)
  qed
qed

lemma trimEnd_prefix: "\<exists>t. s = trimEnd s @ t \<and> list_all is_space t"
proof -
  have "rev s = takeWhile is_space (rev s) @ dropWhile is_space (rev s)" by simp
  then have "s = rev (dropWhile is_space (rev s)) @ rev (takeWhile is_space (rev s))"
    by (metis rev_append rev_rev_ident)
  moreover have "list_all is_space (rev (takeWhile is_space (rev s)))"
    by (auto simp: list_all_iff dest: set_takeWhileD)
  ultimately show ?thesis unfolding trimEnd_def by blast
qed

lemma trimEnd_append:
  assumes "a \<noteq> []" "\<not> is_space (last a)"
  shows "\<exists>r. trimEnd (a @ b) = a @ r \<and> (r = [] \<or> (b \<noteq> [] \<and> hd r = hd b))"
proof (cases "\<forall>x \<in> set (rev b). is_space x")
  case True
  have "dropWhile is_space (rev a) = rev a"
    using assms by (cases "rev a") (auto simp: last_rev [symmetric] hd_rev)
  with True have "trimEnd (a @ b) = a" by (simp add: trimEnd_def dropWhile_append)
  then show ?thesis by simp
next
  case False
  then have e: "trimEnd (a @ b) = a @ trimEnd b" by (auto simp: trimEnd_def dropWhile_append)
  from trimEnd_prefix [of b] obtain t where t: "b = trimEnd b @ t" by blast
  show ?thesis
  proof (cases "trimEnd b")
    case Nil
    with e show ?thesis by simp
  next
    case (Cons c cs)
    with t have "b \<noteq> []" "hd (trimEnd b) = hd b" by (cases b; auto)+
    with e show ?thesis by blast
  qed
qed

lemma leading_identifier_simple:
  assumes sp: "list_all is_space sp"
    and name: "name \<noteq> []" "list_all is_word name"
    and rest: "rest = [] \<or> \<not> is_word (hd rest)"
  shows "leading_identifier (sp @ name @ rest) = Some name"
proof -
  have h: "\<not> is_space (hd (name @ rest))"
    using name by (cases name) (auto dest: is_word_not_space)
  have ts: "trimStart (sp @ name @ rest) = name @ rest"
    using sp h name(1) unfolding trimStart_def
    by (subst dropWhile_append2) (auto simp: list_all_iff intro: dropWhile_eq_self_iff [THEN iffD2])
  have l: "\<not> is_space (last name)"
    using name by (auto simp: list_all_iff dest!: is_word_not_space [rotated] intro: last_in_set)
  from trimEnd_append [OF name(1) l, of rest] obtain r where
    r: "trimEnd (name @ rest) = name @ r" "r = [] \<or> (rest \<noteq> [] \<and> hd r = hd rest)"
    by blast
  from r(2) rest have "r = [] \<or> \<not> is_word (hd r)" by auto
  then have "takeWhile is_word r = []" by (cases r) auto
  then have "takeWhile is_word (name @ r) = name"
    using name(2) by (simp add: takeWhile_append2 list_all_iff)
  then show ?thesis
    using name(1) by (simp add: leading_identifier_def trim_def ts r(1) Let_def)
qed

lemma trim_nonblank:
  assumes "x \<in> set s" "\<not> is_space x"
  shows "trim s \<noteq> []"
proof -
  have ne: "dropWhile is_space s \<noteq> []" using assms by (auto simp: dropWhile_eq_Nil_conv)
  then have h: "\<not> is_space (hd (dropWhile is_space s))" by (rule hd_dropWhile)
  from ne obtain c cs where c: "dropWhile is_space s = c # cs" by (cases "dropWhile is_space s") auto
  with h have "\<not> is_space (last [c])" by simp
  from trimEnd_append [OF _ this, of cs] obtain r where "trimEnd ([c] @ cs) = [c] @ r" by blast
  then show ?thesis by (simp add: trim_def trimStart_def c)
qed

lemma simple_parameter_no_comma:
  assumes "simple_parameter q"
  shows "CHR '','' \<notin> set (parameter_text q)"
proof -
  obtain sp name rest where q: "q = (sp, name, rest)" by (cases q)
  have "\<not> is_space CHR '',''" "\<not> is_word CHR '',''"
    by (simp_all add: is_space_def is_word_def Let_def)
  with assms show ?thesis
    by (auto simp: q simple_parameter_def parameter_text_def list_all_iff)
qed

lemma simple_parameter_identifier:
  assumes "simple_parameter q"
  shows "leading_identifier (parameter_text q) = Some (parameter_name q)"
proof -
  obtain sp name rest where q: "q = (sp, name, rest)" by (cases q)
  from assms show ?thesis
    unfolding q simple_parameter_def parameter_text_def parameter_name_def prod.case
    by (intro leading_identifier_simple) simp_all
qed

lemma simple_parameters:
  assumes "qs \<noteq> []" "list_all simple_parameter qs"
  shows "parameters_by_splitting (join '','' (map parameter_text qs)) = map parameter_name qs"
proof -
  let ?texts = "map parameter_text qs"
  have nc: "\<forall>p \<in> set ?texts. CHR '','' \<notin> set p"
    using assms(2) by (auto simp: list_all_iff simple_parameter_no_comma)
  have sj: "split_on CHR '','' (join '','' ?texts) = ?texts"
    using split_on_join [of ?texts "CHR '',''"] assms(1) nc by simp
  obtain q qs' where qs: "qs = q # qs'" using assms(1) by (cases qs) auto
  obtain sp name rest where q: "q = (sp, name, rest)" by (cases q)
  from assms(2) qs q have n: "name \<noteq> []" "list_all is_word name"
    by (simp_all add: simple_parameter_def)
  then obtain c where c: "c \<in> set name" "is_word c" by (cases name) auto
  have "c \<in> set (join '','' ?texts)"
    using c(1) by (cases qs') (simp_all add: qs q parameter_text_def)
  moreover have "\<not> is_space c" using c(2) by (rule is_word_not_space)
  ultimately have t: "trim (join '','' ?texts) \<noteq> []" by (rule trim_nonblank)
  have "concat (map (\<lambda>part. case leading_identifier part of None \<Rightarrow> [] | Some w \<Rightarrow> [w]) ?texts) =
      map parameter_name qs"
    using assms(2)
    by (induction qs) (simp_all add: simple_parameter_identifier)
  with t sj show ?thesis by (simp add: parameters_by_splitting_def)
qed

text \<open>
  C7, amended. A line matches the function-definition pattern exactly when it has the
  form \<open>func\<close>, white space, a name of word characters, optional white space, \<open>(\<close>, a
  text without \<open>)\<close>, \<open>)\<close>, anything; group 1 is the name and group 2 the text between
  the opening parenthesis and the first closing one. The pattern is anchored at the
  first character of the line, so a line that does not start with \<open>func\<close>, and in
  particular a line that starts with white space, does not match. The scope analyzer
  begins a function on a line exactly when the line matches: a matching line with
  index \<open>i\<close> begins the function of that name on line \<open>i + 1\<close>, every other line
  leaves the list of functions begun as it is, and the functions of a parsed script
  are those begun by its matching lines, in order. The parameter list is
  \<open>parseParameters\<close> of group 2, which splits the text on every comma and takes the
  leading run of word characters of each trimmed part, leaving out the parts that
  have none; each parameter is also entered as a variable declared on the start line.
  When every parameter is written as optional white space, a name, and a remainder
  that does not start with a word character and holds no comma, the list is exactly
  the names.
\<close>

theorem C7_function_start_and_parameters:
  "str_match raw funcPattern =
     (case func_header raw of
        None \<Rightarrow> None
      | Some (name, params, rest) \<Rightarrow>
          Some [(0, take (length raw - length rest) raw), (2, params), (1, name)]) \<and>
   (\<forall>name params rest. func_header raw = Some (name, params, rest) \<longrightarrow>
      (\<exists>ws sp. raw = ''func'' @ ws @ name @ sp @ ''('' @ params @ '')'' @ rest \<and>
         ws \<noteq> [] \<and> list_all is_space ws \<and> name \<noteq> [] \<and> list_all is_word name \<and>
         list_all is_space sp \<and> CHR '')'' \<notin> set params) \<and>
      currentFunction (parse_line i raw st) = Some
        \<lparr> fn_name = name, startLine = int i + 1, endLine = int i + 1,
          parameters = parameters_by_splitting params,
          localVariables =
            map (parameter_variable (int i + 1)) (parameters_by_splitting params) \<rparr>) \<and>
   (\<forall>ws name sp params rest.
      raw = ''func'' @ ws @ name @ sp @ ''('' @ params @ '')'' @ rest \<longrightarrow>
      ws \<noteq> [] \<longrightarrow> list_all is_space ws \<longrightarrow> name \<noteq> [] \<longrightarrow> list_all is_word name \<longrightarrow>
      list_all is_space sp \<longrightarrow> CHR '')'' \<notin> set params \<longrightarrow>
      func_header raw = Some (name, params, rest)) \<and>
   (\<not> startsWith raw ''func'' \<longrightarrow> func_header raw = None) \<and>
   (\<forall>c cs. raw = c # cs \<longrightarrow> is_space c \<longrightarrow>
      func_header raw = None \<and> str_match raw funcPattern = None) \<and>
   map function_header (open_functions (parse_line i raw st)) =
     map function_header (open_functions st) @ begun_by i raw \<and>
   map function_header (script_functions (parseGDScriptContent content)) =
     concat (map (\<lambda>(i, raw). begun_by i raw) (enumerate 0 (split_on CHR 0x0A content))) \<and>
   parseParameters paramsStr = parameters_by_splitting paramsStr \<and>
   (\<forall>qs. qs \<noteq> [] \<longrightarrow> list_all simple_parameter qs \<longrightarrow>
      parseParameters (join '','' (map parameter_text qs)) = map parameter_name qs) \<and>
   (\<forall>m. str_match raw funcPattern = Some m \<longrightarrow>
      startsWith raw ''func'' \<and> length raw - length (trimStart raw) = 0 \<and>
      currentFunction (parse_line i raw st) = Some
        \<lparr> fn_name = group m 1, startLine = int i + 1, endLine = int i + 1,
          parameters = parseParameters (group m 2),
          localVariables = map (parameter_variable (int i + 1)) (parseParameters (group m 2)) \<rparr>)"
proof (intro conjI allI impI)
  show "str_match raw funcPattern =
     (case func_header raw of
        None \<Rightarrow> None
      | Some (name, params, rest) \<Rightarrow>
          Some [(0, take (length raw - length rest) raw), (2, params), (1, name)])"
    by (rule funcPattern_header)
next
  fix name params rest assume h: "func_header raw = Some (name, params, rest)"
  show "\<exists>ws sp. raw = ''func'' @ ws @ name @ sp @ ''('' @ params @ '')'' @ rest \<and>
         ws \<noteq> [] \<and> list_all is_space ws \<and> name \<noteq> [] \<and> list_all is_word name \<and>
         list_all is_space sp \<and> CHR '')'' \<notin> set params"
    by (rule func_header_shape [OF h])
  from func_header_group [OF h] obtain m where
    m: "str_match raw funcPattern = Some m" "group m 1 = name" "group m 2 = params"
    by blast
  have "currentFunction (parse_line i raw st) = Some
        \<lparr> fn_name = group m 1, startLine = int i + 1, endLine = int i + 1,
          parameters = parseParameters (group m 2),
          localVariables = map (parameter_variable (int i + 1)) (parseParameters (group m 2)) \<rparr>"
    unfolding parse_line_func [OF m(1)] by (rule start_function_current)
  then show "currentFunction (parse_line i raw st) = Some
        \<lparr> fn_name = name, startLine = int i + 1, endLine = int i + 1,
          parameters = parameters_by_splitting params,
          localVariables =
            map (parameter_variable (int i + 1)) (parameters_by_splitting params) \<rparr>"
    unfolding m(2,3) parseParameters_by_splitting .
next
  fix ws name sp params rest
  assume "raw = ''func'' @ ws @ name @ sp @ ''('' @ params @ '')'' @ rest"
    and "ws \<noteq> []" "list_all is_space ws" "name \<noteq> []" "list_all is_word name"
    and "list_all is_space sp" "CHR '')'' \<notin> set params"
  then show "func_header raw = Some (name, params, rest)" by (rule func_header_of_shape)
next
  assume "\<not> startsWith raw ''func''"
  then show "func_header raw = None" by (simp add: func_header_def)
next
  fix c cs assume r: "raw = c # cs" "is_space c"
  then have "\<not> startsWith raw ''func''" by (auto simp: startsWith_def is_space_def)
  then show "func_header raw = None" by (simp add: func_header_def)
  from r show "str_match raw funcPattern = None" by (rule indented_line_no_function)
next
  show "map function_header (open_functions (parse_line i raw st)) =
     map function_header (open_functions st) @ begun_by i raw"
    by (rule parse_line_headers)
next
  show "map function_header (script_functions (parseGDScriptContent content)) =
     concat (map (\<lambda>(i, raw). begun_by i raw) (enumerate 0 (split_on CHR 0x0A content)))"
    by (rule script_functions_headers)
next
  show "parseParameters paramsStr = parameters_by_splitting paramsStr"
    by (rule parseParameters_by_splitting)
next
  fix qs :: "(string \<times> string \<times> string) list"
  assume "qs \<noteq> []" "list_all simple_parameter qs"
  then show "parseParameters (join '','' (map parameter_text qs)) = map parameter_name qs"
    unfolding parseParameters_by_splitting by (rule simple_parameters)
next
  fix m assume m: "str_match raw funcPattern = Some m"
  show sw: "startsWith raw ''func''" by (rule funcPattern_needs_func [OF m])
  show "length raw - length (trimStart raw) = 0"
    by (simp only: starts_with_func(1) [OF sw] diff_self_eq_0)
  show "currentFunction (parse_line i raw st) = Some
        \<lparr> fn_name = group m 1, startLine = int i + 1, endLine = int i + 1,
          parameters = parseParameters (group m 2),
          localVariables = map (parameter_variable (int i + 1)) (parseParameters (group m 2)) \<rparr>"
    unfolding parse_line_func [OF m] by (rule start_function_current)
qed

definition func_line :: string where
  "func_line = ''func f(a: int, b = 2) -> void:''"

lemma func_line_match:
  "str_match func_line funcPattern =
     Some [(0, ''func f(a: int, b = 2)''), (2, ''a: int, b = 2''), (1, ''f'')]"
  unfolding func_line_def by code_simp

definition indented_func_line :: string where
  "indented_func_line = ''    func g(x):''"

lemma func_line_split: "parameters_by_splitting ''a: int, b = 2'' = [''a'', ''b'']"
  by code_simp

theorem C7_witness:
  "func_line = ''func'' @ '' '' @ ''f'' @ [] @ ''('' @ ''a: int, b = 2'' @ '')'' @ '' -> void:'' \<and>
   list_all is_space '' '' \<and> list_all is_word ''f'' \<and> CHR '')'' \<notin> set ''a: int, b = 2'' \<and>
   func_header func_line = Some (''f'', ''a: int, b = 2'', '' -> void:'') \<and>
   list_all simple_parameter [([], ''a'', '': int''), ('' '', ''b'', '' = 2'')] \<and>
   parseParameters ''a: int, b = 2'' = [''a'', ''b''] \<and>
   str_match func_line funcPattern =
     Some [(0, ''func f(a: int, b = 2)''), (2, ''a: int, b = 2''), (1, ''f'')] \<and>
   currentFunction (parse_line 4 func_line parser_start) = Some
     \<lparr> fn_name = ''f'', startLine = 5, endLine = 5, parameters = [''a'', ''b''],
       localVariables = [parameter_variable 5 ''a'', parameter_variable 5 ''b''] \<rparr> \<and>
   \<not> startsWith indented_func_line ''func'' \<and>
   indented_func_line = CHR '' '' # ''   func g(x):'' \<and> is_space CHR '' '' \<and>
   str_match indented_func_line funcPattern = None \<and>
   map function_header (open_functions (parse_line 4 indented_func_line parser_start)) = []"
proof -
  note inst = C7_function_start_and_parameters [of func_line 4 parser_start "[]" "[]"]
  note ind = C7_function_start_and_parameters [of indented_func_line 4 parser_start "[]" "[]"]
  have shape:
    "func_line = ''func'' @ '' '' @ ''f'' @ [] @ ''('' @ ''a: int, b = 2'' @ '')'' @ '' -> void:''"
    by (simp add: func_line_def)
  have cls: "'' '' \<noteq> []" "list_all is_space '' ''" "''f'' \<noteq> []" "list_all is_word ''f''"
    "list_all is_space []" "CHR '')'' \<notin> set ''a: int, b = 2''"
    by (simp_all add: is_space_def is_word_def Let_def)
  from inst [THEN conjunct2, THEN conjunct2, THEN conjunct1, rule_format, OF shape cls]
  have hdr: "func_header func_line = Some (''f'', ''a: int, b = 2'', '' -> void:'')" .
  from inst [THEN conjunct2, THEN conjunct1, rule_format, OF hdr, THEN conjunct2]
  have "currentFunction (parse_line 4 func_line parser_start) = Some
     \<lparr> fn_name = ''f'', startLine = int 4 + 1, endLine = int 4 + 1,
       parameters = parameters_by_splitting ''a: int, b = 2'',
       localVariables = map (parameter_variable (int 4 + 1))
         (parameters_by_splitting ''a: int, b = 2'') \<rparr>" .
  then have 1: "currentFunction (parse_line 4 func_line parser_start) = Some
     \<lparr> fn_name = ''f'', startLine = 5, endLine = 5, parameters = [''a'', ''b''],
       localVariables = [parameter_variable 5 ''a'', parameter_variable 5 ''b''] \<rparr>"
    by (simp add: func_line_split)
  have s: "indented_func_line = CHR '' '' # ''   func g(x):''" "is_space CHR '' ''"
    "\<not> startsWith indented_func_line ''func''"
    by (simp_all add: indented_func_line_def is_space_def startsWith_def)
  from ind [THEN conjunct2, THEN conjunct2, THEN conjunct2, THEN conjunct2, THEN conjunct1,
      rule_format, OF s(1,2)]
  have n: "func_header indented_func_line = None" "str_match indented_func_line funcPattern = None"
    by blast+
  from ind [THEN conjunct2, THEN conjunct2, THEN conjunct2, THEN conjunct2, THEN conjunct2,
      THEN conjunct1]
  have 2: "map function_header (open_functions (parse_line 4 indented_func_line parser_start)) = []"
    by (simp add: begun_by_def n open_functions_def parser_start_def)
  have sim: "list_all simple_parameter [([], ''a'', '': int''), ('' '', ''b'', '' = 2'')]"
    by (simp add: simple_parameter_def is_space_def is_word_def Let_def)
  have "[([], ''a'', '': int''), ('' '', ''b'', '' = 2'')] \<noteq> ([] :: (string \<times> string \<times> string) list)"
    by simp
  from inst [THEN conjunct2, THEN conjunct2, THEN conjunct2, THEN conjunct2, THEN conjunct2,
      THEN conjunct2, THEN conjunct2, THEN conjunct2, THEN conjunct1, rule_format, OF this sim]
  have pp: "parseParameters ''a: int, b = 2'' = [''a'', ''b'']"
    by (simp add: parameter_text_def parameter_name_def)
  from shape cls(2,4,6) hdr sim pp func_line_match 1 s n(2) 2 show ?thesis by (intro conjI)
qed

text \<open>
  C7 as stated fails twice. An indented \<open>func\<close> line does not match the pattern, and a
  script whose only \<open>func\<close> line is indented inside an inner class has no function.
  And default values are not ignored: the parameter text ends at the first closing
  parenthesis and is split on every comma, so \<open>func go(n: int = 3, cb = foo(1, 2), c):\<close>
  gets the parameters \<open>n\<close>, \<open>cb\<close> and \<open>2\<close>.
\<close>

theorem C7_counterexample:
  "str_match ''    func g(x):'' funcPattern = None \<and>
   script_functions (parseGDScriptContent
     (''class Inner:'' @ [CHR 0x0A] @ ''    func g(x):'' @ [CHR 0x0A] @ ''        var y = 1'')) = [] \<and>
   map parameters (script_functions (parseGDScriptContent
     ''func go(n: int = 3, cb = foo(1, 2), c):'')) = [[''n'', ''cb'', ''2'']]"
  by code_simp

section \<open>Properties of the frame decoder\<close>

definition written_text :: "DAPClient \<times> (string + int \<times> string) \<Rightarrow> string" where
  "written_text res = (case snd res of Inl err \<Rightarrow> [] | Inr (sq, written) \<Rightarrow> written)"

definition accented_frame :: string where
  "accented_frame =
     written_text (sendRequest ''evaluate'' (evaluate_args [CHR 0xE9] 0) connected_client)"

lemma accented_frame_text:
  "accented_frame = ''Content-Length: 109'' @ CRLF2 @
     stringify (request_json \<lparr> rq_seq = 1, rq_command = ''evaluate'',
       arguments = evaluate_args [CHR 0xE9] 0 \<rparr>)"
  unfolding accented_frame_def by code_simp

lemma accented_frame_header: "indexOf accented_frame CRLF2 = Some 19"
  unfolding accented_frame_def by code_simp

lemma accented_frame_length_field:
  "str_match (take 19 accented_frame) contentLengthPattern =
     Some [(0, ''Content-Length: 109''), (1, ''109'')]"
  unfolding accented_frame_def by code_simp

lemma accented_frame_length: "length accented_frame = 131" "parseInt ''109'' = 109"
  unfolding accented_frame_def by code_simp+

lemma accented_frame_whole:
  "handleData parse accented_frame new_DAPClient =
     (new_DAPClient\<lparr> buffer := accented_frame \<rparr>, [], [])"
proof -
  have b: "buffer (new_DAPClient\<lparr> buffer := buffer new_DAPClient @ accented_frame \<rparr>) = accented_frame"
    by (simp add: new_DAPClient_def)
  have c: "new_DAPClient\<lparr> buffer := buffer new_DAPClient @ accented_frame \<rparr> =
           new_DAPClient\<lparr> buffer := accented_frame \<rparr>"
    by (simp add: new_DAPClient_def)
  show ?thesis
    unfolding handleData_def
    by (subst handle_frames.simps)
       (simp add: b c accented_frame_header accented_frame_length_field accented_frame_length
          group_def Let_def)
qed


definition stalls :: "string \<Rightarrow> bool" where
  "stalls b =
     (case indexOf b CRLF2 of
        None \<Rightarrow> True
      | Some headerEnd \<Rightarrow>
          (case str_match (take headerEnd b) contentLengthPattern of
             None \<Rightarrow> False
           | Some m \<Rightarrow> length b < headerEnd + 4 + parseInt (group m 1)))"

lemma stalls_handle_frames:
  assumes "stalls (buffer c)"
  shows "handle_frames parse c = (c, [], [])"
proof (cases "indexOf (buffer c) CRLF2")
  case None
  then show ?thesis by (subst handle_frames.simps) simp
next
  case (Some headerEnd)
  with assms obtain m where
    m: "str_match (take headerEnd (buffer c)) contentLengthPattern = Some m"
    and short: "length (buffer c) < headerEnd + 4 + parseInt (group m 1)"
    by (auto simp: stalls_def split: option.splits)
  show ?thesis
    by (subst handle_frames.simps) (use short in \<open>simp add: Some m Let_def\<close>)
qed

definition feed_chunk ::
  "(string \<Rightarrow> DAPMessage option) \<Rightarrow> string
     \<Rightarrow> DAPClient \<times> DAPMessage list \<times> settlement list
     \<Rightarrow> DAPClient \<times> DAPMessage list \<times> settlement list" where
  "feed_chunk parse chunk acc =
     (case acc of
        (c, msgs, settled) \<Rightarrow>
          (let (c', msgs', settled') = handleData parse chunk c
           in (c', msgs @ msgs', settled @ settled')))"

definition feed ::
  "(string \<Rightarrow> DAPMessage option) \<Rightarrow> string list \<Rightarrow> DAPClient
     \<Rightarrow> DAPClient \<times> DAPMessage list \<times> settlement list" where
  "feed parse chunks c = fold (feed_chunk parse) chunks (c, [], [])"

lemma indexOf_take:
  "indexOf s sub = Some i \<Longrightarrow> i + length sub \<le> k \<Longrightarrow> indexOf (take k s) sub = Some i"
proof (induction s arbitrary: i k)
  case Nil
  then show ?case by simp
next
  case (Cons c cs)
  show ?case
  proof (cases "startsWith (c # cs) sub")
    case True
    with Cons.prems(1) have i: "i = 0" by (subst (asm) indexOf.simps) simp
    from True Cons.prems(2) i have "startsWith (take k (c # cs)) sub"
      by (simp add: startsWith_def min_def)
    with i show ?thesis by (subst indexOf.simps) simp
  next
    case False
    with Cons.prems(1) obtain j where j: "indexOf cs sub = Some j" "i = Suc j"
      by (subst (asm) indexOf.simps) auto
    from Cons.prems(2) j(2) obtain k' where k': "k = Suc k'" "j + length sub \<le> k'"
      by (cases k) auto
    have ns: "\<not> startsWith (take k (c # cs)) sub"
    proof
      assume "startsWith (take k (c # cs)) sub"
      then have "take (length sub) (take k (c # cs)) = sub" by (simp only: startsWith_def)
      moreover have "length sub \<le> k" using Cons.prems(2) by simp
      ultimately have "take (length sub) (c # cs) = sub" by (simp add: min_def)
      with False show False by (simp add: startsWith_def)
    qed
    from Cons.IH [OF j(1) k'(2)] have "indexOf (take k' cs) sub = Some j" .
    with ns k'(1) j(2) show ?thesis by (subst indexOf.simps) simp
  qed
qed

lemma accented_short_prefixes:
  "list_all (\<lambda>k. indexOf (take k accented_frame) CRLF2 = None) [0..<23]"
  unfolding accented_frame_def by code_simp

lemma accented_prefix_stalls: "stalls (take k accented_frame)"
proof (cases "k < 23")
  case True
  with accented_short_prefixes have "indexOf (take k accented_frame) CRLF2 = None"
    by (simp add: list_all_iff)
  then show ?thesis by (simp add: stalls_def)
next
  case False
  then have k: "19 + length CRLF2 \<le> k" by (simp add: CRLF2_def)
  have i: "indexOf (take k accented_frame) CRLF2 = Some 19"
    by (rule indexOf_take [OF accented_frame_header k])
  have t: "take 19 (take k accented_frame) = take 19 accented_frame"
    using False by (simp add: min_def)
  have m: "str_match (take 19 (take k accented_frame)) contentLengthPattern =
      Some [(0, ''Content-Length: 109''), (1, ''109'')]"
    unfolding t by (rule accented_frame_length_field)
  have l: "length (take k accented_frame) < 19 + 4 + 109"
    by (simp add: accented_frame_length)
  show ?thesis
    unfolding stalls_def i m option.case
    using l by (simp add: group_def accented_frame_length)
qed

lemma feed_chunk_stalls:
  assumes "stalls (buffer c @ chunk)"
  shows "feed_chunk parse chunk (c, msgs, settled) =
           (c\<lparr> buffer := buffer c @ chunk \<rparr>, msgs, settled)"
proof -
  have "stalls (buffer (c\<lparr> buffer := buffer c @ chunk \<rparr>))" using assms by simp
  then have "handleData parse chunk c = (c\<lparr> buffer := buffer c @ chunk \<rparr>, [], [])"
    unfolding handleData_def by (rule stalls_handle_frames)
  then show ?thesis by (simp add: feed_chunk_def)
qed

lemma feed_stalling:
  assumes "\<And>k. stalls (take k whole)"
  shows "buffer c @ concat chunks = take n whole \<Longrightarrow>
     fold (feed_chunk parse) chunks (c, msgs, settled) =
       (c\<lparr> buffer := take n whole \<rparr>, msgs, settled)"
proof (induction chunks arbitrary: c)
  case Nil
  then show ?case by simp
next
  case (Cons chunk chunks)
  let ?c = "c\<lparr> buffer := buffer c @ chunk \<rparr>"
  define a where "a = length (buffer c @ chunk)"
  from Cons.prems have "(buffer c @ chunk) @ concat chunks = take n whole" by simp
  then have "buffer c @ chunk = take a (take n whole)"
    unfolding a_def by (simp only: append_eq_conv_conj)
  also have "\<dots> = take (min a n) whole" by (rule take_take)
  finally have "stalls (buffer c @ chunk)" using assms [of "min a n"] by (simp only:)
  then have h: "feed_chunk parse chunk (c, msgs, settled) = (?c, msgs, settled)"
    by (rule feed_chunk_stalls)
  have "buffer ?c @ concat chunks = take n whole" using Cons.prems by simp
  from Cons.IH [OF this] h show ?case by simp
qed

lemma accented_frame_in_chunks:
  assumes "concat chunks = accented_frame"
  shows "feed parse chunks new_DAPClient = (new_DAPClient\<lparr> buffer := accented_frame \<rparr>, [], [])"
proof -
  have "buffer new_DAPClient @ concat chunks = take 131 accented_frame"
    using assms by (simp add: new_DAPClient_def accented_frame_length)
  from feed_stalling [of accented_frame, OF accented_prefix_stalls this]
  show ?thesis by (simp add: feed_def accented_frame_length)
qed

lemma concat_singletons: "concat (map (\<lambda>c. [c]) xs) = xs"
  by (induction xs) simp_all

lemma accented_message_lengths:
  "length (stringify (request_json \<lparr> rq_seq = 1, rq_command = ''evaluate'',
       arguments = evaluate_args [CHR 0xE9] 0 \<rparr>)) = 108"
  "byteLength (stringify (request_json \<lparr> rq_seq = 1, rq_command = ''evaluate'',
       arguments = evaluate_args [CHR 0xE9] 0 \<rparr>)) = 109"
  by code_simp+

text \<open>
  C4 does not hold of the code. \<open>evaluate\<close> of the expression \<open>U+00E9\<close> (one character,
  two bytes in UTF-8) in frame 0 is the first request of a connected client; its JSON
  text has 108 characters and 109 bytes, and \<open>sendRequest\<close> writes the header
  \<open>Content-Length: 109\<close>. A client that receives exactly this text, in one piece or
  character by character, hands no message to \<open>handleMessage\<close>: \<open>handleData\<close> compares
  the byte count of the header with the length of its buffer in characters, finds the
  frame one short, and keeps waiting with the whole frame in its buffer.
\<close>

theorem C4_accented_request_is_never_decoded:
  "accented_frame = ''Content-Length: 109'' @ CRLF2 @
     stringify (request_json \<lparr> rq_seq = 1, rq_command = ''evaluate'',
       arguments = evaluate_args [CHR 0xE9] 0 \<rparr>) \<and>
   length (stringify (request_json \<lparr> rq_seq = 1, rq_command = ''evaluate'',
       arguments = evaluate_args [CHR 0xE9] 0 \<rparr>)) = 108 \<and>
   handleData parse accented_frame new_DAPClient =
     (new_DAPClient\<lparr> buffer := accented_frame \<rparr>, [], []) \<and>
   feed parse (map (\<lambda>c. [c]) accented_frame) new_DAPClient =
     (new_DAPClient\<lparr> buffer := accented_frame \<rparr>, [], [])"
  using accented_frame_text accented_message_lengths(1) accented_frame_whole [of parse]
    accented_frame_in_chunks [OF concat_singletons, of parse]
  by (intro conjI)

subsection \<open>Frames of ASCII text\<close>

text \<open>
  Where byte count and character count agree the decoder does what the encoder
  expects: a frame whose text is ASCII, fed to a client with an empty buffer in any
  division into chunks, hands exactly the parsed message to \<open>handleMessage\<close>, once.
  For a request written by \<open>sendRequest\<close> that is the request itself, provided
  \<open>parse\<close> inverts \<open>stringify\<close> on it.
\<close>

definition ascii :: "string \<Rightarrow> bool" where
  "ascii s = list_all (\<lambda>c. (of_char c :: nat) < 128) s"

lemma byteLength_ascii: "ascii s \<Longrightarrow> byteLength s = length s"
  by (induction s) (simp_all add: byteLength_def ascii_def)

lemma digit_char_is_digit: "d < 10 \<Longrightarrow> is_digit (digit_char d)"
  by (simp add: is_digit_def digit_char_def)

lemma digit_char_value: "d < 10 \<Longrightarrow> (of_char (digit_char d) :: nat) - 48 = d"
  by (simp add: digit_char_def)

lemma show_nat_digits: "list_all is_digit (show_nat n) \<and> show_nat n \<noteq> []"
proof (induction n rule: show_nat.induct)
  case (1 n)
  show ?case
  proof (cases "n < 10")
    case True
    then show ?thesis by (subst (1 2) show_nat.simps) (simp add: digit_char_is_digit)
  next
    case False
    with 1 have "list_all is_digit (show_nat (n div 10))" by simp
    with False show ?thesis
      by (subst (1 2) show_nat.simps) (simp add: digit_char_is_digit)
  qed
qed

lemma parseInt_snoc: "parseInt (s @ [c]) = 10 * parseInt s + (of_char c - 48)"
  by (simp add: parseInt_def)

lemma parseInt_show_nat: "parseInt (show_nat n) = n"
proof (induction n rule: show_nat.induct)
  case (1 n)
  show ?case
  proof (cases "n < 10")
    case True
    then show ?thesis
      by (subst show_nat.simps) (simp add: parseInt_def digit_char_value)
  next
    case False
    with 1 have "parseInt (show_nat (n div 10)) = n div 10" by simp
    with False show ?thesis
      by (subst show_nat.simps) (simp add: parseInt_snoc digit_char_value)
  qed
qed

lemma indexOf_after_header:
  assumes "CHR 0x0D \<notin> set h"
  shows "indexOf (h @ CRLF2 @ rest) CRLF2 = Some (length h)"
  using assms
proof (induction h)
  case Nil
  show ?case by (subst indexOf.simps) (simp add: startsWith_def)
next
  case (Cons c h)
  then have "c \<noteq> CHR 0x0D" and ih: "indexOf (h @ CRLF2 @ rest) CRLF2 = Some (length h)"
    by auto
  then have "\<not> startsWith ((c # h) @ CRLF2 @ rest) CRLF2"
    by (auto simp: startsWith_def CRLF2_def)
  with ih show ?case by (subst indexOf.simps) simp
qed


lemma ms_lit_ci_same:
  "ms (lit_ci w) (b, w @ rest, g) = [(b \<and> w = [], rest, g)]"
proof (induction w arbitrary: b)
  case Nil
  show ?case by (simp add: lit_ci_def)
next
  case (Cons c w)
  have unf: "lit_ci (c # w) = Seq (Chr (\<lambda>x. ascii_upper x = ascii_upper c)) (lit_ci w)"
    by (simp add: lit_ci_def)
  show ?case using Cons [of False] by (simp add: unf)
qed

lemma ms_seq_first:
  assumes "ms a st = x # xs" "ms b x = y # ys"
  shows "\<exists>zs. ms (Seq a b) st = y # zs"
  using assms by simp

lemma ms_star_chr_first:
  "\<exists>rest. ms (Star (Chr p)) (b, s, g) =
      ((if takeWhile p s = [] then b else False), dropWhile p s, g) # rest"
  using star_chr_first [of s "length s" p b g] by simp

lemma dropWhile_all: "list_all p s \<Longrightarrow> dropWhile p s = []"
  by (induction s) simp_all

lemma takeWhile_all: "list_all p s \<Longrightarrow> takeWhile p s = s"
  by (induction s) simp_all

lemma contentLength_header_match:
  assumes "list_all is_digit ds" "ds \<noteq> []"
  shows "str_match (''Content-Length: '' @ ds) contentLengthPattern =
           Some [(0, ''Content-Length: '' @ ds), (1, ds)]"
proof -
  let ?s = "''Content-Length: '' @ ds"
  obtain d ds' where ds: "ds = d # ds'" using assms(2) by (cases ds) auto
  with assms(1) have d: "is_digit d" by simp
  then have nsp: "\<not> is_space d" by (auto simp: is_digit_def is_space_def)
  have 1: "ms (lit_ci ''Content-Length:'') (True, ?s, []) = [(False, '' '' @ ds, [])]"
    using ms_lit_ci_same [of "''Content-Length:''" True "'' '' @ ds" "[]"] by simp
  obtain r2 where 2: "ms (Star (Chr is_space)) (False, '' '' @ ds, []) = (False, ds, []) # r2"
    using ms_star_chr_first [of is_space False "'' '' @ ds" "[]"] nsp
    by (auto simp: ds is_space_def)
  have tw: "takeWhile is_digit ds \<noteq> []" using d by (simp add: ds)
  obtain r3 where 3: "ms (OneOrMore (Chr is_digit)) (False, ds, []) = (False, [], []) # r3"
    using one_or_more_chr_first [OF tw, of False "[]"] dropWhile_all [OF assms(1)] by auto
  have g: "ms (Grp 1 (OneOrMore (Chr is_digit))) (False, ds, []) =
       (False, [], [(1, ds)]) # map (\<lambda>st'. (fst st', fst (snd st'),
           (1, take (length ds - length (fst (snd st'))) ds) # snd (snd st'))) r3"
    by (simp add: 3)
  have e: "ms Eps (False, [], [(1, ds)]) = (False, [], [(1, ds)]) # []" by simp
  note c3 = ms_seq_first [OF g e]
  then obtain z3 where
    "ms (Seq (Grp 1 (OneOrMore (Chr is_digit))) Eps) (False, ds, []) = (False, [], [(1, ds)]) # z3" ..
  note c2 = ms_seq_first [OF 2 this]
  then obtain z2 where
    "ms (Seq (Star (Chr is_space)) (Seq (Grp 1 (OneOrMore (Chr is_digit))) Eps))
       (False, '' '' @ ds, []) = (False, [], [(1, ds)]) # z2" ..
  note c1 = ms_seq_first [OF 1 this]
  have unf: "contentLengthPattern = Seq (lit_ci ''Content-Length:'')
      (Seq (Star (Chr is_space)) (Seq (Grp 1 (OneOrMore (Chr is_digit))) Eps))"
    by (simp add: contentLengthPattern_def seqs_def)
  have "\<exists>zs. ms contentLengthPattern (True, ?s, []) = (False, [], [(1, ds)]) # zs"
    unfolding unf by (rule c1)
  then obtain zs where "ms contentLengthPattern (True, ?s, []) = (False, [], [(1, ds)]) # zs" ..
  then show ?thesis
    unfolding str_match_def by (subst exec_at.simps) simp
qed


lemma is_digit_not_CR: "is_digit c \<Longrightarrow> c \<noteq> CHR 0x0D"
  by (auto simp: is_digit_def)

lemma header_no_CR:
  "CHR 0x0D \<notin> set (''Content-Length: '' @ show_nat n)"
proof -
  have "list_all is_digit (show_nat n)" using show_nat_digits by simp
  then have "CHR 0x0D \<notin> set (show_nat n)"
    using is_digit_not_CR by (auto simp: list_all_iff)
  then show ?thesis by simp
qed

lemma handle_frames_empty:
  assumes "buffer c = []"
  shows "handle_frames parse c = (c, [], [])"
proof -
  have "indexOf [] CRLF2 = None"
    by (subst indexOf.simps) (simp add: startsWith_def CRLF2_def)
  then show ?thesis using assms by (subst handle_frames.simps) simp
qed

lemma handle_frames_complete:
  assumes b: "buffer c = ''Content-Length: '' @ show_nat (length msg) @ CRLF2 @ msg"
    and p: "parse msg = Some m"
  shows "handle_frames parse c =
     (fst (handleMessage m (c\<lparr> buffer := [] \<rparr>)), [m],
      snd (handleMessage m (c\<lparr> buffer := [] \<rparr>)))"
proof -
  define h where "h = ''Content-Length: '' @ show_nat (length msg)"
  have bh: "buffer c = h @ CRLF2 @ msg" using b by (simp add: h_def)
  have i: "indexOf (buffer c) CRLF2 = Some (length h)"
    unfolding bh h_def by (rule indexOf_after_header [OF header_no_CR])
  have t: "take (length h) (buffer c) = h" unfolding bh by simp
  have m: "str_match h contentLengthPattern = Some [(0, h), (1, show_nat (length msg))]"
    unfolding h_def
    using contentLength_header_match [of "show_nat (length msg)"] show_nat_digits by simp
  have n: "parseInt (group [(0, h), (1, show_nat (length msg))] 1) = length msg"
    by (simp add: group_def parseInt_show_nat)
  have l: "length (buffer c) = length h + 4 + length msg"
    unfolding bh by (simp add: CRLF2_def)
  have d: "drop (length h + 4) (buffer c) = msg"
    unfolding bh by (simp add: CRLF2_def)
  have d2: "drop (length h + 4 + length msg) (buffer c) = []"
    using l by simp
  let ?c2 = "fst (handleMessage m (c\<lparr> buffer := [] \<rparr>))"
  have "buffer ?c2 = []" by (simp add: handleMessage_buffer)
  then have rest: "handle_frames parse ?c2 = (?c2, [], [])" by (rule handle_frames_empty)
  show ?thesis
    by (subst handle_frames.simps)
       (simp only: i t m n l d d2 p rest option.case Let_def split_conv
          less_irrefl if_False take_all order_refl append_Nil2)
qed

lemma ascii_frame_is_decoded:
  assumes "ascii msg" and "buffer c = []" and "parse msg = Some m"
  shows "handleData parse (frame msg) c = (fst (handleMessage m c), [m], snd (handleMessage m c))"
proof -
  let ?c = "c\<lparr> buffer := buffer c @ frame msg \<rparr>"
  have b: "buffer ?c = ''Content-Length: '' @ show_nat (length msg) @ CRLF2 @ msg"
    using assms(1,2) by (simp add: frame_def byteLength_ascii)
  have c: "?c\<lparr> buffer := [] \<rparr> = c" using assms(2) by simp
  show ?thesis
    unfolding handleData_def handle_frames_complete [of ?c msg parse m, OF b assms(3)] c ..
qed


lemma indexOf_short: "length s < length sub \<Longrightarrow> indexOf s sub = None"
  using indexOf_bound [of s sub] by (cases "indexOf s sub") auto

lemma startsWith_take:
  assumes "startsWith (take k s) sub"
  shows "startsWith s sub"
proof -
  from assms have e: "take (length sub) (take k s) = sub" by (simp only: startsWith_def)
  then have "length (take (length sub) (take k s)) = length sub" by simp
  then have "length sub \<le> k" by simp
  with e show ?thesis by (simp add: startsWith_def min_def)
qed

lemma indexOf_take_None:
  "indexOf s sub = Some i \<Longrightarrow> k < i + length sub \<Longrightarrow> indexOf (take k s) sub = None"
proof (induction s arbitrary: i k)
  case Nil
  then show ?case by (subst (asm) indexOf.simps) (auto simp: startsWith_def split: if_splits)
next
  case (Cons c cs)
  show ?case
  proof (cases "startsWith (c # cs) sub")
    case True
    with Cons.prems(1) have "i = 0" by (subst (asm) indexOf.simps) simp
    with Cons.prems(2) have "length (take k (c # cs)) < length sub" by simp
    then show ?thesis by (rule indexOf_short)
  next
    case False
    with Cons.prems(1) obtain j where j: "indexOf cs sub = Some j" "i = Suc j"
      by (subst (asm) indexOf.simps) auto
    have ns: "\<not> startsWith (take k (c # cs)) sub"
      using False startsWith_take by blast
    show ?thesis
    proof (cases k)
      case 0
      from ns have "sub \<noteq> []" by (auto simp: startsWith_def)
      then have "length (take k (c # cs)) < length sub" using 0 by simp
      then show ?thesis by (rule indexOf_short)
    next
      case (Suc k')
      with Cons.prems(2) j(2) have "k' < j + length sub" by simp
      from Cons.IH [OF j(1) this] have "indexOf (take k' cs) sub = None" .
      with ns Suc show ?thesis by (subst indexOf.simps) simp
    qed
  qed
qed

lemma frame_prefix_stalls:
  assumes k: "k < length (''Content-Length: '' @ show_nat (length msg) @ CRLF2 @ msg)"
  shows "stalls (take k (''Content-Length: '' @ show_nat (length msg) @ CRLF2 @ msg))"
proof -
  define h where "h = ''Content-Length: '' @ show_nat (length msg)"
  define F where "F = h @ CRLF2 @ msg"
  have F: "''Content-Length: '' @ show_nat (length msg) @ CRLF2 @ msg = F"
    by (simp add: F_def h_def)
  have i: "indexOf F CRLF2 = Some (length h)"
    unfolding F_def h_def by (rule indexOf_after_header [OF header_no_CR])
  have l: "length F = length h + 4 + length msg" by (simp add: F_def CRLF2_def)
  show ?thesis
  proof (cases "k < length h + 4")
    case True
    then have "k < length h + length CRLF2" by (simp add: CRLF2_def)
    from indexOf_take_None [OF i this] show ?thesis unfolding F by (simp add: stalls_def)
  next
    case False
    then have "length h + length CRLF2 \<le> k" by (simp add: CRLF2_def)
    from indexOf_take [OF i this] have ik: "indexOf (take k F) CRLF2 = Some (length h)" .
    have t: "take (length h) (take k F) = h"
      using False by (simp add: F_def min_def)
    have m: "str_match h contentLengthPattern = Some [(0, h), (1, show_nat (length msg))]"
      unfolding h_def
      using contentLength_header_match [of "show_nat (length msg)"] show_nat_digits by simp
    have n: "parseInt (group [(0, h), (1, show_nat (length msg))] 1) = length msg"
      by (simp add: group_def parseInt_show_nat)
    have short: "length (take k F) < length h + 4 + length msg"
      using k l unfolding F by simp
    show ?thesis
      unfolding F stalls_def ik option.case t m n using short by simp
  qed
qed


lemma feed_chunk_empty:
  assumes "buffer c = []"
  shows "feed_chunk parse [] (c, msgs, settled) = (c, msgs, settled)"
proof -
  have "c\<lparr> buffer := buffer c @ [] \<rparr> = c" by simp
  then have "handleData parse [] c = (c, [], [])"
    unfolding handleData_def using handle_frames_empty [OF assms, of parse] by simp
  then show ?thesis by (simp add: feed_chunk_def)
qed

lemma feed_empty_tail:
  "buffer c = [] \<Longrightarrow> concat chunks = [] \<Longrightarrow>
     fold (feed_chunk parse) chunks (c, msgs, settled) = (c, msgs, settled)"
proof (induction chunks)
  case Nil
  then show ?case by simp
next
  case (Cons chunk chunks)
  then have "chunk = []" "concat chunks = []" by simp_all
  with Cons show ?case by (simp add: feed_chunk_empty)
qed

lemma feed_chunk_completes:
  assumes "buffer c @ chunk = ''Content-Length: '' @ show_nat (length msg) @ CRLF2 @ msg"
    and "parse msg = Some m"
  shows "feed_chunk parse chunk (c, msgs, settled) =
     (fst (handleMessage m (c\<lparr> buffer := [] \<rparr>)), msgs @ [m],
      settled @ snd (handleMessage m (c\<lparr> buffer := [] \<rparr>)))"
proof -
  let ?c = "c\<lparr> buffer := buffer c @ chunk \<rparr>"
  have b: "buffer ?c = ''Content-Length: '' @ show_nat (length msg) @ CRLF2 @ msg"
    using assms(1) by simp
  have e: "?c\<lparr> buffer := [] \<rparr> = c\<lparr> buffer := [] \<rparr>" by simp
  have "handleData parse chunk c =
     (fst (handleMessage m (c\<lparr> buffer := [] \<rparr>)), [m],
      snd (handleMessage m (c\<lparr> buffer := [] \<rparr>)))"
    unfolding handleData_def handle_frames_complete [of ?c msg parse m, OF b assms(2)] e ..
  then show ?thesis by (simp add: feed_chunk_def)
qed

lemma feed_completes:
  fixes msg :: string
  defines "F \<equiv> ''Content-Length: '' @ show_nat (length msg) @ CRLF2 @ msg"
  assumes p: "parse msg = Some m"
  shows "buffer c = take k F \<Longrightarrow> k < length F \<Longrightarrow> concat chunks = drop k F \<Longrightarrow>
     fold (feed_chunk parse) chunks (c, msgs, settled) =
       (fst (handleMessage m (c\<lparr> buffer := [] \<rparr>)), msgs @ [m],
        settled @ snd (handleMessage m (c\<lparr> buffer := [] \<rparr>)))"
proof (induction chunks arbitrary: c k)
  case Nil
  then show ?case by simp
next
  case (Cons chunk chunks)
  define k' where "k' = k + length chunk"
  from Cons.prems(3) have cat: "chunk @ concat chunks = drop k F" by simp
  then have chunk: "chunk = take (length chunk) (drop k F)"
    and rest: "concat chunks = drop (length chunk) (drop k F)"
    by (simp_all only: append_eq_conv_conj)
  have "length chunk \<le> length (drop k F)"
    using cat by (metis length_append le_add1)
  then have k'le: "k' \<le> length F" using Cons.prems(2) by (simp add: k'_def)
  have buf: "buffer c @ chunk = take k' F"
    unfolding k'_def Cons.prems(1)
    by (subst chunk) (simp add: take_add)
  have rest': "concat chunks = drop k' F"
    unfolding k'_def using rest by (simp add: add.commute)
  show ?case
  proof (cases "k' < length F")
    case True
    then have "stalls (take k' F)" unfolding F_def by (rule frame_prefix_stalls)
    then have "stalls (buffer c @ chunk)" by (simp only: buf)
    then have st: "feed_chunk parse chunk (c, msgs, settled) =
        (c\<lparr> buffer := buffer c @ chunk \<rparr>, msgs, settled)"
      by (rule feed_chunk_stalls)
    let ?c = "c\<lparr> buffer := buffer c @ chunk \<rparr>"
    have b: "buffer ?c = take k' F" using buf by simp
    from Cons.IH [OF b True rest'] st show ?thesis by simp
  next
    case False
    with k'le have "k' = length F" by simp
    with buf have whole: "buffer c @ chunk = F" by simp
    from rest' \<open>k' = length F\<close> have tail: "concat chunks = []" by simp
    let ?c2 = "fst (handleMessage m (c\<lparr> buffer := [] \<rparr>))"
    have fin: "feed_chunk parse chunk (c, msgs, settled) =
        (?c2, msgs @ [m], settled @ snd (handleMessage m (c\<lparr> buffer := [] \<rparr>)))"
      by (rule feed_chunk_completes [where parse = parse and msg = msg,
            OF whole [unfolded F_def] p])
    have "buffer ?c2 = []" by (simp add: handleMessage_buffer)
    from feed_empty_tail [OF this tail] fin show ?thesis by simp
  qed
qed

lemma ascii_frame_roundtrip:
  assumes "ascii msg" and "buffer c = []" and "parse msg = Some m"
    and "concat chunks = frame msg"
  shows "feed parse chunks c = (fst (handleMessage m c), [m], snd (handleMessage m c))"
proof -
  let ?F = "''Content-Length: '' @ show_nat (length msg) @ CRLF2 @ msg"
  have F: "frame msg = ?F" using assms(1) by (simp add: frame_def byteLength_ascii)
  have 1: "buffer c = take 0 ?F" using assms(2) by simp
  have 2: "0 < length ?F" by simp
  have 3: "concat chunks = drop 0 ?F" using assms(4) F by simp
  have c: "c\<lparr> buffer := [] \<rparr> = c" using assms(2) by simp
  from feed_completes [where parse = parse and msg = msg and msgs = "[]" and settled = "[]",
      OF assms(3) 1 2 3]
  show ?thesis by (simp add: feed_def c)
qed


lemma ascii_request_roundtrip:
  assumes "socket sender" and "connected sender"
    and q: "q = \<lparr> rq_seq = sequenceNumber sender, rq_command = cmd, arguments = args \<rparr>"
    and "ascii (stringify (request_json q))"
    and "parse (stringify (request_json q)) = Some (Request q)"
    and "buffer receiver = []"
    and "concat chunks = written_text (sendRequest cmd args sender)"
  shows "feed parse chunks receiver = (receiver, [Request q], [])"
proof -
  have w: "written_text (sendRequest cmd args sender) = frame (stringify (request_json q))"
    using assms(1,2) by (simp add: sendRequest_def written_text_def Let_def q)
  have h: "handleMessage (Request q) receiver = (receiver, [])"
    by (simp add: handleMessage_def)
  from ascii_frame_roundtrip [where parse = parse and chunks = chunks, OF assms(4,6,5)]
    assms(7) w h
  show ?thesis by simp
qed

definition threads_request :: DAPRequest where
  "threads_request = \<lparr> rq_seq = 1, rq_command = ''threads'', arguments = [] \<rparr>"

lemma threads_request_text:
  "stringify (request_json threads_request) =
     [CHR ''{'', CHR 0x22] @ ''seq'' @ [CHR 0x22] @ '':1,'' @
     [CHR 0x22] @ ''type'' @ [CHR 0x22] @ '':'' @ [CHR 0x22] @ ''request'' @ [CHR 0x22] @ '','' @
     [CHR 0x22] @ ''command'' @ [CHR 0x22] @ '':'' @ [CHR 0x22] @ ''threads'' @ [CHR 0x22] @ '','' @
     [CHR 0x22] @ ''arguments'' @ [CHR 0x22] @ '':{}}''"
  "ascii (stringify (request_json threads_request))"
  unfolding threads_request_def by code_simp+

lemma threads_request_roundtrip:
  assumes "parse (stringify (request_json threads_request)) = Some (Request threads_request)"
  shows "feed parse
     [take 7 (written_text (sendRequest ''threads'' [] connected_client)),
      drop 7 (written_text (sendRequest ''threads'' [] connected_client))]
     new_DAPClient = (new_DAPClient, [Request threads_request], [])"
proof -
  have s: "socket connected_client" "connected connected_client"
    and q: "threads_request = \<lparr> rq_seq = sequenceNumber connected_client,
      rq_command = ''threads'', arguments = [] \<rparr>"
    by (simp_all add: connected_client_def new_DAPClient_def threads_request_def)
  have b: "buffer new_DAPClient = []" by (simp add: new_DAPClient_def)
  show ?thesis
    by (rule ascii_request_roundtrip [where parse = parse,
          OF s q threads_request_text(2) assms b]) simp
qed

end
